theory Spec2Isabelle
  imports Main "HOL-Library.Word" "HOL-Library.AList"
begin

unbundle bit_operations_syntax

section \<open>JavaScript strings and values\<close>

text \<open>
  The HTTP gateway is the second document of \<^verbatim>\<open>src/utils/graphqlHelpers.ts\<close> (lines 95-531).
  A JavaScript string is modelled as a \<^typ>\<open>string\<close> whose characters are the code units
  \<open>0..255\<close>: Node decodes header values as Latin-1, so every credential that reaches the
  gateway is such a string. Times are integral milliseconds (\<^verbatim>\<open>Date.now()\<close>, an expiry
  claim in whole seconds), configured numbers are the integers \<^verbatim>\<open>parseInt\<close> returns for
  numeric settings. What is written to the console is left out; evaluating the argument of
  a log line is not, where it can throw.
\<close>

datatype error = TypeError | SyntaxError

datatype jsvalue =
    JNull
  | JBool bool
  | JNum int
  | JStr string
  | JArr "jsvalue list"
  | JObj "(string \<times> jsvalue) list"

text \<open>\<^verbatim>\<open>!v\<close> is false exactly on the truthy values.\<close>

fun truthy :: "jsvalue \<Rightarrow> bool" where
  "truthy JNull = False"
| "truthy (JBool b) = b"
| "truthy (JNum n) = (n \<noteq> 0)"
| "truthy (JStr s) = (s \<noteq> [])"
| "truthy (JArr vs) = True"
| "truthy (JObj kvs) = True"

text \<open>
  Reading a property such as \<^verbatim>\<open>payload.exp\<close> or \<^verbatim>\<open>userInfo.email\<close>: a TypeError on
  \<^verbatim>\<open>null\<close>, the member of an object, \<^verbatim>\<open>undefined\<close> (\<open>None\<close>) on every other value.
\<close>

fun getProp :: "jsvalue \<Rightarrow> string \<Rightarrow> error + jsvalue option" where
  "getProp JNull k = Inl TypeError"
| "getProp (JObj kvs) k = Inr (map_of kvs k)"
| "getProp v k = Inr None"

text \<open>\<^verbatim>\<open>String.prototype.trim\<close>: the white space of the code units below 256.\<close>

definition isWhiteSpace :: "char \<Rightarrow> bool" where
  "isWhiteSpace ch = ((of_char ch :: nat) \<in> {9, 10, 11, 12, 13, 32, 160})"

definition trim :: "string \<Rightarrow> string" where
  "trim s = rev (dropWhile isWhiteSpace (rev (dropWhile isWhiteSpace s)))"

definition startsWith :: "string \<Rightarrow> string \<Rightarrow> bool" where
  "startsWith s p = (take (length p) s = p)"

text \<open>
  \<^verbatim>\<open>s.replace(pat, rep)\<close> with a string pattern replaces the first occurrence only
  (\<open>rep\<close> without \<^verbatim>\<open>$\<close> patterns; the gateway passes the empty string).
\<close>

fun replaceFirst :: "string \<Rightarrow> string \<Rightarrow> string \<Rightarrow> string" where
  "replaceFirst pat rep [] = (if pat = [] then rep else [])"
| "replaceFirst pat rep (ch # s) =
     (if startsWith (ch # s) pat then rep @ drop (length pat) (ch # s)
      else ch # replaceFirst pat rep s)"

text \<open>
  \<open>occurs pat s\<close>: \<open>pat\<close> is a substring of \<open>s\<close>. The first occurrence of \<open>pat\<close> in
  \<open>pre @ pat @ suf\<close> is the one after \<open>pre\<close> when \<open>pat\<close> does not occur in
  \<open>pre @ butlast pat\<close>.
\<close>

fun occurs :: "string \<Rightarrow> string \<Rightarrow> bool" where
  "occurs pat [] = (pat = [])"
| "occurs pat (ch # s) = (startsWith (ch # s) pat \<or> occurs pat s)"

text \<open>\<^verbatim>\<open>token.split('.')\<close>: never empty, one part more than there are separators.\<close>

fun jsSplit :: "char \<Rightarrow> string \<Rightarrow> string list" where
  "jsSplit sep [] = [[]]"
| "jsSplit sep (ch # s) =
     (if ch = sep then [] # jsSplit sep s
      else (case jsSplit sep s of
              [] \<Rightarrow> [[ch]]
            | part # parts \<Rightarrow> (ch # part) # parts))"

section \<open>SHA-256 (\<^verbatim>\<open>createHash('sha256').update(token).digest('hex')\<close>)\<close>

type_synonym w32 = "32 word"
type_synonym byte = "8 word"
type_synonym st256 = "w32 \<times> w32 \<times> w32 \<times> w32 \<times> w32 \<times> w32 \<times> w32 \<times> w32"

definition rotr32 :: "nat \<Rightarrow> w32 \<Rightarrow> w32" where
  "rotr32 n x = (drop_bit n x) OR (push_bit (32 - n) x)"

definition Ch :: "w32 \<Rightarrow> w32 \<Rightarrow> w32 \<Rightarrow> w32" where
  "Ch x y z = (x AND y) XOR (NOT x AND z)"

definition Maj :: "w32 \<Rightarrow> w32 \<Rightarrow> w32 \<Rightarrow> w32" where
  "Maj x y z = (x AND y) XOR (x AND z) XOR (y AND z)"

definition bsig0 :: "w32 \<Rightarrow> w32" where
  "bsig0 x = rotr32 2 x XOR rotr32 13 x XOR rotr32 22 x"

definition bsig1 :: "w32 \<Rightarrow> w32" where
  "bsig1 x = rotr32 6 x XOR rotr32 11 x XOR rotr32 25 x"

definition ssig0 :: "w32 \<Rightarrow> w32" where
  "ssig0 x = rotr32 7 x XOR rotr32 18 x XOR drop_bit 3 x"

definition ssig1 :: "w32 \<Rightarrow> w32" where
  "ssig1 x = rotr32 17 x XOR rotr32 19 x XOR drop_bit 10 x"

definition K256 :: "w32 list" where
  "K256 = [
   0x428A2F98, 0x71374491, 0xB5C0FBCF, 0xE9B5DBA5, 0x3956C25B, 0x59F111F1, 0x923F82A4, 0xAB1C5ED5,
   0xD807AA98, 0x12835B01, 0x243185BE, 0x550C7DC3, 0x72BE5D74, 0x80DEB1FE, 0x9BDC06A7, 0xC19BF174,
   0xE49B69C1, 0xEFBE4786, 0x0FC19DC6, 0x240CA1CC, 0x2DE92C6F, 0x4A7484AA, 0x5CB0A9DC, 0x76F988DA,
   0x983E5152, 0xA831C66D, 0xB00327C8, 0xBF597FC7, 0xC6E00BF3, 0xD5A79147, 0x06CA6351, 0x14292967,
   0x27B70A85, 0x2E1B2138, 0x4D2C6DFC, 0x53380D13, 0x650A7354, 0x766A0ABB, 0x81C2C92E, 0x92722C85,
   0xA2BFE8A1, 0xA81A664B, 0xC24B8B70, 0xC76C51A3, 0xD192E819, 0xD6990624, 0xF40E3585, 0x106AA070,
   0x19A4C116, 0x1E376C08, 0x2748774C, 0x34B0BCB5, 0x391C0CB3, 0x4ED8AA4A, 0x5B9CCA4F, 0x682E6FF3,
   0x748F82EE, 0x78A5636F, 0x84C87814, 0x8CC70208, 0x90BEFFFA, 0xA4506CEB, 0xBEF9A3F7, 0xC67178F2]"

definition H256 :: "st256" where
  "H256 = (0x6A09E667, 0xBB67AE85, 0x3C6EF372, 0xA54FF53A,
           0x510E527F, 0x9B05688C, 0x1F83D9AB, 0x5BE0CD19)"

text \<open>The message schedule, latest word first: 48 steps extend the 16 words of a block.\<close>

fun schedule :: "nat \<Rightarrow> w32 list \<Rightarrow> w32 list" where
  "schedule 0 rs = rs"
| "schedule (Suc n) rs =
     schedule n ((ssig1 (rs ! 1) + rs ! 6 + ssig0 (rs ! 14) + rs ! 15) # rs)"

fun round256 :: "st256 \<Rightarrow> w32 \<times> w32 \<Rightarrow> st256" where
  "round256 (a, b, c, d, e, f, g, h) (k, w) =
     (let t1 = h + bsig1 e + Ch e f g + k + w;
          t2 = bsig0 a + Maj a b c
      in (t1 + t2, a, b, c, d + t1, e, f, g))"

fun add256 :: "st256 \<Rightarrow> st256 \<Rightarrow> st256" where
  "add256 (a, b, c, d, e, f, g, h) (a', b', c', d', e', f', g', h') =
     (a + a', b + b', c + c', d + d', e + e', f + f', g + g', h + h')"

definition compress :: "st256 \<Rightarrow> w32 list \<Rightarrow> st256" where
  "compress hs block =
     add256 hs (foldl round256 hs (zip K256 (rev (schedule 48 (rev block)))))"

fun be_words :: "byte list \<Rightarrow> w32 list" where
  "be_words (a # b # c # d # bs) =
     (push_bit 24 (ucast a) OR push_bit 16 (ucast b) OR push_bit 8 (ucast c) OR ucast d)
       # be_words bs"
| "be_words bs = []"

fun blocks16 :: "w32 list \<Rightarrow> w32 list list" where
  "blocks16 (w0 # w1 # w2 # w3 # w4 # w5 # w6 # w7 #
             w8 # w9 # w10 # w11 # w12 # w13 # w14 # w15 # ws) =
     [w0, w1, w2, w3, w4, w5, w6, w7, w8, w9, w10, w11, w12, w13, w14, w15] # blocks16 ws"
| "blocks16 ws = []"

definition be_bytes64 :: "64 word \<Rightarrow> byte list" where
  "be_bytes64 n = map (\<lambda>i. ucast (drop_bit (8 * i) n)) [7, 6, 5, 4, 3, 2, 1, 0]"

definition pad256 :: "byte list \<Rightarrow> byte list" where
  "pad256 bs = bs @ [0x80] @ replicate ((119 - length bs mod 64) mod 64) 0
                 @ be_bytes64 (8 * of_nat (length bs))"

fun words_of :: "st256 \<Rightarrow> w32 list" where
  "words_of (a, b, c, d, e, f, g, h) = [a, b, c, d, e, f, g, h]"

definition sha256 :: "byte list \<Rightarrow> st256" where
  "sha256 bs = foldl compress H256 (blocks16 (be_words (pad256 bs)))"

definition hexdigit :: "nat \<Rightarrow> char" where
  "hexdigit n = ''0123456789abcdef'' ! n"

definition hex32 :: "w32 \<Rightarrow> string" where
  "hex32 w = map (\<lambda>i. hexdigit (unat (drop_bit (4 * i) w AND 0xF))) [7, 6, 5, 4, 3, 2, 1, 0]"

definition sha256hex :: "byte list \<Rightarrow> string" where
  "sha256hex bs = concat (map hex32 (words_of (sha256 bs)))"

text \<open>\<^verbatim>\<open>update(token)\<close> hashes the UTF-8 encoding of the string.\<close>

definition utf8 :: "string \<Rightarrow> byte list" where
  "utf8 s = concat (map (\<lambda>ch. let n = (of_char ch :: nat) in
                if n < 128 then [of_nat n] else [of_nat (192 + n div 64), of_nat (128 + n mod 64)]) s)"

text \<open>Lines 124-126.\<close>

definition hashToken :: "string \<Rightarrow> string" where
  "hashToken token = sha256hex (utf8 token)"


section \<open>The token-validation cache and the validator\<close>

text \<open>
  The environment of lines 111-119. \<open>AUTH0_DOMAIN\<close> is \<open>None\<close> when the variable is not
  set; \<open>TOKEN_CACHE_TTL\<close> is in milliseconds.
\<close>

record config =
  AUTH0_DOMAIN :: "string option"
  TOKEN_CACHE_TTL :: int
  TOKEN_CACHE_MAX_SIZE :: int
  MCP_SERVER_URL :: string

text \<open>\<^verbatim>\<open>!AUTH0_DOMAIN\<close> holds for \<^verbatim>\<open>undefined\<close> and for the empty string.\<close>

definition configured :: "string option \<Rightarrow> bool" where
  "configured d = (case d of None \<Rightarrow> False | Some s \<Rightarrow> s \<noteq> [])"

text \<open>
  \<open>_tokenCache\<close> (line 111) is a JavaScript \<^verbatim>\<open>Map\<close>: keys in insertion order, \<^verbatim>\<open>set\<close> on a
  present key keeps its place, on a new key appends. That is \<^const>\<open>AList.update\<close>;
  \<^verbatim>\<open>delete\<close> is \<^const>\<open>AList.delete\<close>, \<^verbatim>\<open>get\<close> is \<^const>\<open>map_of\<close>, \<^verbatim>\<open>size\<close> the length.
\<close>

record entry =
  userInfo :: jsvalue
  expiry :: int

type_synonym cache = "(string \<times> entry) list"

text \<open>
  Lines 132-156. \<open>decode\<close> is \<^verbatim>\<open>JSON.parse(Buffer.from(s, 'base64').toString())\<close> of the
  Node library, \<open>Inl\<close> when it throws; every exception is caught and gives \<^verbatim>\<open>null\<close>.
\<close>

definition getTokenExpiry :: "(string \<Rightarrow> error + jsvalue) \<Rightarrow> string \<Rightarrow> int option" where
  "getTokenExpiry decode token =
     (let parts = jsSplit CHR ''.'' token in
      if length parts \<noteq> 3 then None
      else
        let payloadB64 = parts ! 1;
            padding = replicate ((4 - length payloadB64 mod 4) mod 4) CHR ''=''
        in case decode (payloadB64 @ padding) of
             Inl e \<Rightarrow> None
           | Inr payload \<Rightarrow>
               (case getProp payload ''exp'' of
                  Inl e \<Rightarrow> None
                | Inr (Some (JNum exp)) \<Rightarrow> if exp \<noteq> 0 then Some (exp * 1000) else None
                | Inr other \<Rightarrow> None))"

text \<open>Line 174: \<^verbatim>\<open>tokenExpiry && now >= tokenExpiry\<close>.\<close>

definition expired :: "int option \<Rightarrow> int \<Rightarrow> bool" where
  "expired tokenExpiry now =
     (case tokenExpiry of None \<Rightarrow> False | Some e \<Rightarrow> e \<noteq> 0 \<and> now \<ge> e)"

text \<open>
  What a call does besides changing the cache, in the order it does it: hashing a token,
  reading the cache under a key, calling the identity provider with a token. The writes
  to the cache are the cache that is returned.
\<close>

datatype event =
    Hashed string
  | CacheGet string
  | Fetched string

text \<open>
  Lines 181-189, the lookup. The result is \<open>Inr (Some u)\<close> on a hit, \<open>Inr None\<close> on a miss;
  the log line of the hit reads \<^verbatim>\<open>cached.userInfo.email\<close> outside the \<^verbatim>\<open>try\<close> block.
\<close>

definition cacheLookup ::
  "int \<Rightarrow> string \<Rightarrow> cache \<Rightarrow> (error + jsvalue option) \<times> cache \<times> event list" where
  "cacheLookup now tokenHash c =
     (case map_of c tokenHash of
        None \<Rightarrow> (Inr None, c, [CacheGet tokenHash])
      | Some cached \<Rightarrow>
          if now < expiry cached then
            (case getProp (userInfo cached) ''email'' of
               Inl e \<Rightarrow> (Inl e, c, [CacheGet tokenHash])
             | Inr email \<Rightarrow> (Inr (Some (userInfo cached)), c, [CacheGet tokenHash]))
          else (Inr None, AList.delete tokenHash c, [CacheGet tokenHash]))"

text \<open>
  Lines 220-222, the eviction loop over the sorted entries: \<open>evict n srt c\<close> runs the
  \<open>n\<close> iterations that are left, \<open>srt\<close> being the sorted entries from index \<open>i\<close> on. Reading past
  the end gives \<^verbatim>\<open>undefined\<close>, whose \<^verbatim>\<open>[0]\<close> throws: the flag of the result.
\<close>

fun evict :: "nat \<Rightarrow> (string \<times> entry) list \<Rightarrow> cache \<Rightarrow> cache \<times> bool" where
  "evict 0 srt c = (c, False)"
| "evict (Suc n) [] c = (c, True)"
| "evict (Suc n) (kv # srt) c = evict n srt (AList.delete (fst kv) c)"

text \<open>
  Lines 213-224: store, then enforce the size limit. \<^verbatim>\<open>Array.prototype.sort\<close> is stable, as
  \<^const>\<open>sort_key\<close> is.
\<close>

definition cacheStore :: "int \<Rightarrow> string \<Rightarrow> entry \<Rightarrow> cache \<Rightarrow> cache \<times> bool" where
  "cacheStore maxSize tokenHash v c =
     (let c1 = AList.update tokenHash v c in
      if int (length c1) > maxSize then
        let srt = sort_key (\<lambda>kv. expiry (snd kv)) c1;
            toRemove = int (length c1) - maxSize
        in evict (nat toRemove) srt c1
      else (c1, False))"

text \<open>The outcome of \<^verbatim>\<open>fetch\<close>: it rejects, or resolves to a status and what \<^verbatim>\<open>json()\<close> gives.\<close>

datatype fetch_result =
    NetworkFailure
  | HttpResponse nat "error + jsvalue"

definition ok :: "nat \<Rightarrow> bool" where
  "ok status = (200 \<le> status \<and> status \<le> 299)"

text \<open>
  Lines 161-231. \<open>idp\<close> is the identity provider: what \<^verbatim>\<open>fetch\<close> of its \<^verbatim>\<open>/userinfo\<close> gives
  for the bearer token sent. The result is \<open>Inr None\<close> for \<^verbatim>\<open>null\<close>, \<open>Inr (Some u)\<close> for a
  returned value and \<open>Inl\<close> for an exception that leaves the function; everything from the
  \<^verbatim>\<open>fetch\<close> on is inside \<^verbatim>\<open>try\<close>, whose handler returns \<^verbatim>\<open>null\<close>.
\<close>

definition verifyOAuthToken ::
  "(string \<Rightarrow> error + jsvalue) \<Rightarrow> config \<Rightarrow> (string \<Rightarrow> fetch_result) \<Rightarrow> int \<Rightarrow> string \<Rightarrow> cache
     \<Rightarrow> (error + jsvalue option) \<times> cache \<times> event list" where
  "verifyOAuthToken decode cfg idp now token c =
     (if \<not> configured (AUTH0_DOMAIN cfg) then (Inr None, c, [])
      else
        let tokenHash = hashToken token;
            tokenExpiry = getTokenExpiry decode token
        in
          if expired tokenExpiry now
          then (Inr None, AList.delete tokenHash c, [Hashed token])
          else
            (case cacheLookup now tokenHash c of
               (Inl e, c1, ev) \<Rightarrow> (Inl e, c1, Hashed token # ev)
             | (Inr (Some u), c1, ev) \<Rightarrow> (Inr (Some u), c1, Hashed token # ev)
             | (Inr None, c1, ev) \<Rightarrow>
                 (case idp token of
                    NetworkFailure \<Rightarrow> (Inr None, c1, Hashed token # ev @ [Fetched token])
                  | HttpResponse status body \<Rightarrow>
                      if \<not> ok status then (Inr None, c1, Hashed token # ev @ [Fetched token])
                      else
                        (case body of
                           Inl e \<Rightarrow> (Inr None, c1, Hashed token # ev @ [Fetched token])
                         | Inr u \<Rightarrow>
                             (case getProp u ''email'' of
                                Inl e \<Rightarrow> (Inr None, c1, Hashed token # ev @ [Fetched token])
                              | Inr email \<Rightarrow>
                                  let cacheExpiry = now + TOKEN_CACHE_TTL cfg;
                                      exp = (case tokenExpiry of
                                               None \<Rightarrow> cacheExpiry
                                             | Some e \<Rightarrow> if e \<noteq> 0 then min cacheExpiry e
                                                        else cacheExpiry)
                                  in
                                    (case cacheStore (TOKEN_CACHE_MAX_SIZE cfg) tokenHash
                                            \<lparr>userInfo = u, expiry = exp\<rparr> c1 of
                                       (c2, threw) \<Rightarrow>
                                         (if threw then Inr None else Inr (Some u), c2,
                                          Hashed token # ev @ [Fetched token])))))))"

text \<open>
  The caches the process can hold: \<open>_tokenCache\<close> starts empty and only
  \<open>verifyOAuthToken\<close> writes to it.
\<close>

inductive reachable :: "(string \<Rightarrow> error + jsvalue) \<Rightarrow> config \<Rightarrow> cache \<Rightarrow> bool"
  for decode :: "string \<Rightarrow> error + jsvalue" and cfg :: config where
  start: "reachable decode cfg []"
| call: "reachable decode cfg c \<Longrightarrow>
         reachable decode cfg (fst (snd (verifyOAuthToken decode cfg idp now token c)))"

section \<open>The auth gate\<close>

record request =
  path :: string
  httpMethod :: string
  authorization :: "string option"

text \<open>
  What the middleware does with the request: \<open>Next\<close> hands it on, \<open>Send status challenge body\<close>
  answers it, \<open>challenge\<close> being the \<^verbatim>\<open>WWW-Authenticate\<close> header when one is set.
\<close>

datatype gate =
    Next
  | Send nat "string option" string

definition dq :: string where
  "dq = [CHR 0x22]"

text \<open>The headers of lines 258 and 273.\<close>

definition challenge :: "config \<Rightarrow> bool \<Rightarrow> string" where
  "challenge cfg invalid =
     ''Bearer realm='' @ dq @ MCP_SERVER_URL cfg @ dq @ '', ''
       @ (if invalid then ''error='' @ dq @ ''invalid_token'' @ dq @ '', '' else [])
       @ ''resource_metadata='' @ dq @ MCP_SERVER_URL cfg
       @ ''/.well-known/oauth-protected-resource'' @ dq"

text \<open>Line 251: the credential read from the header.\<close>

definition bearerToken :: "string option \<Rightarrow> string" where
  "bearerToken h =
     (let authHeader = (case h of None \<Rightarrow> [] | Some v \<Rightarrow> v)
      in trim (replaceFirst ''Bearer '' [] authHeader))"

text \<open>\<^verbatim>\<open>!userInfo\<close> on what the validator returned.\<close>

definition rejected :: "jsvalue option \<Rightarrow> bool" where
  "rejected r = (case r of None \<Rightarrow> True | Some u \<Rightarrow> \<not> truthy u)"

text \<open>Lines 236-286.\<close>

definition authMiddleware ::
  "(string \<Rightarrow> error + jsvalue) \<Rightarrow> config \<Rightarrow> (string \<Rightarrow> fetch_result) \<Rightarrow> int \<Rightarrow> request \<Rightarrow> cache
     \<Rightarrow> (error + gate) \<times> cache \<times> event list" where
  "authMiddleware decode cfg idp now req c =
     (if path req = ''/health'' \<or> startsWith (path req) ''/.well-known/''
           \<or> httpMethod req = ''OPTIONS''
      then (Inr Next, c, [])
      else if startsWith (path req) ''/mcp'' then
        if \<not> configured (AUTH0_DOMAIN cfg)
        then (Inr (Send 500 None ''Server misconfigured''), c, [])
        else
          let token = bearerToken (authorization req) in
          if token = []
          then (Inr (Send 401 (Some (challenge cfg False)) ''Unauthorized - No token''), c, [])
          else
            (case verifyOAuthToken decode cfg idp now token c of
               (Inl e, c', ev) \<Rightarrow> (Inl e, c', ev)
             | (Inr r, c', ev) \<Rightarrow>
                 if rejected r
                 then (Inr (Send 401 (Some (challenge cfg True)) ''Unauthorized''), c', ev)
                 else (Inr Next, c', ev))
      else (Inr Next, c, []))"

section \<open>The session registry and the routes\<close>

text \<open>
  \<open>transports\<close> (line 394) maps a session id to its transport. A transport is an object of
  the protocol library; the gateway reads its \<^verbatim>\<open>sessionId\<close> only.
\<close>

record transport =
  sessionId :: "string option"

type_synonym registry = "string \<rightharpoonup> transport"

text \<open>A header read as a condition (\<^verbatim>\<open>if (sessionId)\<close>): set and not empty.\<close>

definition present :: "string option \<Rightarrow> bool" where
  "present h = (case h of None \<Rightarrow> False | Some v \<Rightarrow> v \<noteq> [])"

text \<open>Lines 421-427, the close handler given to a transport.\<close>

definition onclose :: "transport \<Rightarrow> registry \<Rightarrow> registry" where
  "onclose t reg =
     (case sessionId t of
        None \<Rightarrow> reg
      | Some sid \<Rightarrow> if sid \<noteq> [] \<and> sid \<in> dom reg then reg(sid := None) else reg)"

text \<open>
  What a call into the protocol library (\<^verbatim>\<open>server.connect\<close>, \<^verbatim>\<open>transport.handleRequest\<close>) does
  as far as the gateway can see: it may call \<^verbatim>\<open>onsessioninitialized\<close> with a generated id,
  call the close handler, and throw, before or after the response headers went out.
\<close>

record run =
  initialized :: "string option"
  closed :: bool
  threw :: bool
  headersSent :: bool

text \<open>
  A response: a JSON-RPC error envelope (status, code, message; its id is \<^verbatim>\<open>null\<close>), a text
  body with its status, or whatever the transport wrote.
\<close>

datatype reply =
    JsonRpcError nat int string
  | Text nat string
  | ByTransport

text \<open>The callbacks of a run, applied to the registry: lines 414-417, then the close handler.\<close>

definition callbacks :: "transport \<Rightarrow> run \<Rightarrow> registry \<Rightarrow> registry" where
  "callbacks t r reg =
     (let t1 = (case initialized r of None \<Rightarrow> t | Some sid \<Rightarrow> t\<lparr>sessionId := Some sid\<rparr>);
          reg1 = (case initialized r of None \<Rightarrow> reg | Some sid \<Rightarrow> reg(sid \<mapsto> t1))
      in if closed r then onclose t1 reg1 else reg1)"

text \<open>
  \<^verbatim>\<open>sessionId && transports.has(sessionId)\<close>, with the transport \<^verbatim>\<open>transports.get\<close> then
  gives.
\<close>

definition knownSession :: "string option \<Rightarrow> registry \<Rightarrow> transport option" where
  "knownSession sid reg =
     (case sid of None \<Rightarrow> None | Some v \<Rightarrow> if v \<noteq> [] then reg v else None)"

text \<open>
  Lines 397-462. \<open>isInit\<close> is \<^verbatim>\<open>isInitializeRequest(req.body)\<close>. The first component of the
  result tells whether a new transport was constructed.
\<close>

definition appPost :: "string option \<Rightarrow> bool \<Rightarrow> run \<Rightarrow> registry \<Rightarrow> bool \<times> reply \<times> registry" where
  "appPost sid isInit r reg =
     (case knownSession sid reg of
        Some t \<Rightarrow>
          (False,
           if threw r \<and> \<not> headersSent r then JsonRpcError 500 (- 32603) ''Internal server error''
           else ByTransport,
           callbacks t r reg)
      | None \<Rightarrow>
          if \<not> present sid \<and> isInit then
            (True,
             if threw r \<and> \<not> headersSent r then JsonRpcError 500 (- 32603) ''Internal server error''
             else ByTransport,
             callbacks \<lparr>sessionId = None\<rparr> r reg)
          else
            (False,
             JsonRpcError 400 (- 32000) ''Bad Request: No valid session ID provided'',
             reg))"

text \<open>Lines 485-504.\<close>

definition appDelete :: "string option \<Rightarrow> run \<Rightarrow> registry \<Rightarrow> reply \<times> registry" where
  "appDelete sid r reg =
     (case knownSession sid reg of
        None \<Rightarrow> (Text 400 ''Invalid or missing session ID'', reg)
      | Some t \<Rightarrow>
          (if threw r \<and> \<not> headersSent r then Text 500 ''Error processing session termination''
           else ByTransport,
           callbacks t r reg))"

text \<open>The status line of a reply the gateway itself wrote is a failure from 400 on.\<close>

definition isErrorReply :: "reply \<Rightarrow> bool" where
  "isErrorReply rp =
     (case rp of JsonRpcError status code msg \<Rightarrow> status \<ge> 400
               | Text status body \<Rightarrow> status \<ge> 400
               | ByTransport \<Rightarrow> False)"

section \<open>Concrete inputs\<close>

text \<open>A cache of two entries, the second expiring first.\<close>

definition c2 :: cache where
  "c2 = [(''k1'', \<lparr>userInfo = JStr ''u1'', expiry = 50\<rparr>),
         (''k2'', \<lparr>userInfo = JStr ''u2'', expiry = 30\<rparr>)]"

text \<open>
  A configured gateway with the default settings, a decoder that knows one payload
  (\<^verbatim>\<open>{"exp":50}\<close>), a provider that accepts every token and one that rejects every token.
\<close>

definition cfg0 :: config where
  "cfg0 = \<lparr>AUTH0_DOMAIN = Some ''tenant.auth0.com'', TOKEN_CACHE_TTL = 120000,
           TOKEN_CACHE_MAX_SIZE = 1000, MCP_SERVER_URL = ''https://gw.example''\<rparr>"

definition decode0 :: "string \<Rightarrow> error + jsvalue" where
  "decode0 s = (if s = ''eyJleHAiOjUwfQ=='' then Inr (JObj [(''exp'', JNum 50)])
                else Inl SyntaxError)"

definition claims0 :: jsvalue where
  "claims0 = JObj [(''sub'', JStr ''auth0|u1''), (''email'', JStr ''u1@example.com'')]"

definition idpAccept :: "string \<Rightarrow> fetch_result" where
  "idpAccept t = HttpResponse 200 (Inr claims0)"

definition idpReject :: "string \<Rightarrow> fetch_result" where
  "idpReject t = HttpResponse 401 (Inl SyntaxError)"

text \<open>A token whose payload is the one \<open>decode0\<close> knows: it expires at 50000 ms.\<close>

definition jwt50 :: string where
  "jwt50 = ''h.eyJleHAiOjUwfQ.s''"

text \<open>Requests to the protocol endpoint and to another path.\<close>

definition mcpRequest :: "string option \<Rightarrow> request" where
  "mcpRequest h = \<lparr>path = ''/mcp'', httpMethod = ''POST'', authorization = h\<rparr>"

definition otherRequest :: request where
  "otherRequest = \<lparr>path = ''/other'', httpMethod = ''GET'', authorization = None\<rparr>"

text \<open>
  A registry with one session, a run of the library that closes the transport (what it does
  on \<^verbatim>\<open>DELETE\<close>), one that only answers, and one that initializes a session \<^verbatim>\<open>s2\<close>.
\<close>

definition reg1 :: registry where
  "reg1 = [''s1'' \<mapsto> \<lparr>sessionId = Some ''s1''\<rparr>]"

definition closeRun :: run where
  "closeRun = \<lparr>initialized = None, closed = True, threw = False, headersSent = True\<rparr>"

definition plainRun :: run where
  "plainRun = \<lparr>initialized = None, closed = False, threw = False, headersSent = True\<rparr>"

definition initRun :: run where
  "initRun = \<lparr>initialized = Some ''s2'', closed = False, threw = False, headersSent = True\<rparr>"


section \<open>The size limit of the cache\<close>

lemma update_fresh: "k \<notin> fst ` set c \<Longrightarrow> AList.update k v c = c @ [(k, v)]"
  by (induction c) auto

lemma delete_filter: "AList.delete k c = filter (\<lambda>kv. fst kv \<noteq> k) c"
  by (induction c) auto

lemma evict_filter:
  "evict n srt c = (filter (\<lambda>kv. fst kv \<notin> fst ` set (take n srt)) c, n > length srt)"
proof (induction n srt c rule: evict.induct)
  case (1 srt c)
  then show ?case by simp
next
  case (2 n c)
  then show ?case by simp
next
  case (3 n kv srt c)
  then show ?case by (auto simp: delete_filter intro: filter_cong)
qed

lemma evict_perm_set:
  assumes "distinct (map fst c)" "set srt = set c" "distinct srt"
  shows "set (fst (evict n srt c)) = set (drop n srt)"
proof -
  have "inj_on fst (set srt)" using assms(1,2) by (simp add: distinct_map)
  then have d: "distinct (map fst srt)" using assms(3) by (simp add: distinct_map)
  have "distinct (map fst (take n srt @ drop n srt))" using d by simp
  then have disj: "fst ` set (take n srt) \<inter> fst ` set (drop n srt) = {}"
    by (simp only: map_append distinct_append set_map) 
  have "set srt = set (take n srt) \<union> set (drop n srt)"
    by (metis append_take_drop_id set_append)
  then show ?thesis using disj assms(2) by (auto simp: evict_filter)
qed

lemma evict_perm_length:
  assumes "distinct (map fst c)" "set srt = set c" "distinct srt"
  shows "length (fst (evict n srt c)) = length c - n"
proof -
  have dc: "distinct c" using assms(1) by (simp add: distinct_map)
  have "distinct (fst (evict n srt c))" using dc by (simp add: evict_filter)
  then have "length (fst (evict n srt c)) = card (set (drop n srt))"
    using evict_perm_set[OF assms] by (metis distinct_card)
  also have "\<dots> = length (drop n srt)" using assms(3) by (simp add: distinct_card)
  also have "\<dots> = length srt - n" by simp
  also have "length srt = length c" using assms(2,3) dc by (metis distinct_card)
  finally show ?thesis .
qed

lemma cacheStore_subset: "set (fst (cacheStore N k v c)) \<subseteq> insert (k, v) (set c)"
proof -
  have "set (AList.update k v c) \<subseteq> insert (k, v) (set c)" by (induction c) auto
  then show ?thesis by (auto simp: cacheStore_def Let_def evict_filter)
qed

lemma cacheStore_distinct:
  "distinct (map fst c) \<Longrightarrow> distinct (map fst (fst (cacheStore N k v c)))"
  by (simp add: cacheStore_def Let_def evict_filter distinct_update distinct_map_filter)


lemma cacheStore_kept_or_all:
  assumes "distinct (map fst c)"
  shows "set (fst (cacheStore N k v c)) =
           set (drop (nat (int (length (AList.update k v c)) - N))
                     (sort_key (\<lambda>kv. expiry (snd kv)) (AList.update k v c)))"
proof -
  let ?c1 = "AList.update k v c"
  let ?srt = "sort_key (\<lambda>kv. expiry (snd kv)) ?c1"
  have d1: "distinct (map fst ?c1)" using assms by (rule distinct_update)
  then have dc1: "distinct ?c1" by (simp add: distinct_map)
  show ?thesis
  proof (cases "int (length ?c1) > N")
    case True
    then show ?thesis
      using evict_perm_set[OF d1, of ?srt] dc1 by (simp add: cacheStore_def Let_def)
  next
    case False
    then have "nat (int (length ?c1) - N) = 0" by simp
    then show ?thesis using False by (simp add: cacheStore_def Let_def)
  qed
qed

lemma cacheStore_length:
  assumes "distinct (map fst c)" "snd (cacheStore N k v c) = False"
  shows "int (length (fst (cacheStore N k v c))) \<le> N"
proof -
  let ?c1 = "AList.update k v c"
  let ?srt = "sort_key (\<lambda>kv. expiry (snd kv)) ?c1"
  have d1: "distinct (map fst ?c1)" using assms(1) by (rule distinct_update)
  then have dc1: "distinct ?c1" by (simp add: distinct_map)
  show ?thesis
  proof (cases "int (length ?c1) > N")
    case True
    then have e: "cacheStore N k v c = evict (nat (int (length ?c1) - N)) ?srt ?c1"
      by (simp add: cacheStore_def Let_def)
    have "\<not> nat (int (length ?c1) - N) > length ?c1"
      using assms(2) by (simp add: e evict_filter)
    moreover have "length (fst (evict (nat (int (length ?c1) - N)) ?srt ?c1))
             = length ?c1 - nat (int (length ?c1) - N)"
      using evict_perm_length[OF d1, of ?srt] dc1 by simp
    ultimately show ?thesis using True by (simp add: e)
  next
    case False
    then show ?thesis by (simp add: cacheStore_def Let_def)
  qed
qed

lemma cacheStore_completes:
  "0 \<le> N \<Longrightarrow> snd (cacheStore N k v c) = False"
  by (auto simp: cacheStore_def Let_def evict_filter)

lemma sorted_take_drop:
  assumes "sorted (map f xs)" "x \<in> set (take n xs)" "y \<in> set (drop n xs)"
  shows "f x \<le> f y"
proof -
  have "sorted (map f (take n xs) @ map f (drop n xs))"
    using assms(1) by (metis append_take_drop_id map_append)
  then show ?thesis using assms(2,3) by (auto simp: sorted_append)
qed


lemma cacheStore_evicts_smallest:
  assumes "distinct (map fst c)"
    and "x \<in> set (AList.update k v c) - set (fst (cacheStore N k v c))"
    and "y \<in> set (fst (cacheStore N k v c))"
  shows "expiry (snd x) \<le> expiry (snd y)"
proof -
  let ?c1 = "AList.update k v c"
  let ?f = "\<lambda>kv. expiry (snd kv)"
  let ?srt = "sort_key ?f ?c1"
  let ?n = "nat (int (length ?c1) - N)"
  have kept: "set (fst (cacheStore N k v c)) = set (drop ?n ?srt)"
    using assms(1) by (rule cacheStore_kept_or_all)
  have "set ?c1 = set (take ?n ?srt) \<union> set (drop ?n ?srt)"
    by (metis append_take_drop_id set_append set_sort)
  then have "x \<in> set (take ?n ?srt)" using assms(2) kept by auto
  moreover have "y \<in> set (drop ?n ?srt)" using assms(3) kept by simp
  moreover have "sorted (map ?f ?srt)" by (rule sorted_sort_key)
  ultimately show ?thesis by (rule sorted_take_drop[where f = ?f, rotated])
qed

lemma cacheStore_one_over:
  assumes "distinct (map fst c)" "k \<notin> fst ` set c" "int (length c) = N"
  shows "\<exists>victim \<in> set (c @ [(k, v)]).
           (\<forall>kv \<in> set (c @ [(k, v)]). expiry (snd victim) \<le> expiry (snd kv))
           \<and> cacheStore N k v c = (AList.delete (fst victim) (c @ [(k, v)]), False)
           \<and> int (length (AList.delete (fst victim) (c @ [(k, v)]))) = N"
proof -
  let ?c1 = "c @ [(k, v)]"
  let ?f = "\<lambda>kv. expiry (snd kv)"
  let ?srt = "sort_key ?f ?c1"
  have c1: "AList.update k v c = ?c1" using assms(2) by (rule update_fresh)
  have d1: "distinct (map fst ?c1)" using assms(1,2) by simp
  then have dc1: "distinct ?c1" by (simp only: distinct_map)
  have "length ?srt = Suc (length c)" by simp
  then obtain victim rest where srt: "?srt = victim # rest" by (cases ?srt) auto
  have "sorted (map ?f ?srt)" by (rule sorted_sort_key)
  then have least: "\<forall>kv \<in> set ?srt. ?f victim \<le> ?f kv" by (auto simp: srt)
  have mem: "victim \<in> set ?c1" by (metis list.set_intros(1) set_sort srt)
  have run: "cacheStore N k v c = (AList.delete (fst victim) ?c1, False)"
    using assms(3) by (simp add: cacheStore_def Let_def c1 srt del: sort_key_simps)
  have "length (fst (evict 1 ?srt ?c1)) = length ?c1 - 1"
    using d1 dc1 by (intro evict_perm_length) simp_all
  then have "int (length (AList.delete (fst victim) ?c1)) = N"
    using assms(3) by (simp add: srt del: sort_key_simps)
  then show ?thesis using mem least run by (metis set_sort)
qed


text \<open>
  C1. Storing an entry in a cache of distinct keys (a \<^verbatim>\<open>Map\<close>) with maximum size \<open>N\<close>: an
  insert that completes leaves at most \<open>N\<close> entries, and with \<open>N \<ge> 0\<close> every insert
  completes; when a new key makes the cache hold \<open>N + 1\<close> entries, exactly one entry is
  removed, one whose expiry is smallest among the \<open>N + 1\<close> (the new entry included), and
  \<open>N\<close> entries are left; whatever is evicted expires no later than whatever is kept.
\<close>

theorem cache_capacity_bound:
  assumes "distinct (map fst c)"
  shows "(\<not> snd (cacheStore N k v c) \<longrightarrow> int (length (fst (cacheStore N k v c))) \<le> N)
       \<and> (0 \<le> N \<longrightarrow> \<not> snd (cacheStore N k v c))
       \<and> (k \<notin> fst ` set c \<and> int (length c) = N \<longrightarrow>
            (\<exists>victim \<in> set (c @ [(k, v)]).
               (\<forall>kv \<in> set (c @ [(k, v)]). expiry (snd victim) \<le> expiry (snd kv))
               \<and> cacheStore N k v c = (AList.delete (fst victim) (c @ [(k, v)]), False)
               \<and> int (length (AList.delete (fst victim) (c @ [(k, v)]))) = N))
       \<and> (\<forall>x \<in> set (AList.update k v c) - set (fst (cacheStore N k v c)).
            \<forall>y \<in> set (fst (cacheStore N k v c)). expiry (snd x) \<le> expiry (snd y))"
proof (intro conjI impI ballI)
  assume "\<not> snd (cacheStore N k v c)"
  then show "int (length (fst (cacheStore N k v c))) \<le> N"
    using assms by (simp add: cacheStore_length)
next
  assume "0 \<le> N"
  then show "\<not> snd (cacheStore N k v c)" by (simp add: cacheStore_completes)
next
  assume "k \<notin> fst ` set c \<and> int (length c) = N"
  then show "\<exists>victim \<in> set (c @ [(k, v)]).
               (\<forall>kv \<in> set (c @ [(k, v)]). expiry (snd victim) \<le> expiry (snd kv))
               \<and> cacheStore N k v c = (AList.delete (fst victim) (c @ [(k, v)]), False)
               \<and> int (length (AList.delete (fst victim) (c @ [(k, v)]))) = N"
    using assms by (intro cacheStore_one_over) simp_all
next
  fix x y
  assume "x \<in> set (AList.update k v c) - set (fst (cacheStore N k v c))"
    and "y \<in> set (fst (cacheStore N k v c))"
  then show "expiry (snd x) \<le> expiry (snd y)"
    using assms by (intro cacheStore_evicts_smallest)
qed

theorem cache_capacity_bound_witness:
  "distinct (map fst c2)
   \<and> cacheStore 2 ''k3'' \<lparr>userInfo = JStr ''u3'', expiry = 40\<rparr> c2 =
       ([(''k1'', \<lparr>userInfo = JStr ''u1'', expiry = 50\<rparr>),
         (''k3'', \<lparr>userInfo = JStr ''u3'', expiry = 40\<rparr>)], False)
   \<and> cacheStore 2 ''k3'' \<lparr>userInfo = JStr ''u3'', expiry = 10\<rparr> c2 = (c2, False)
   \<and> int (length (fst (cacheStore 2 ''k3'' \<lparr>userInfo = JStr ''u3'', expiry = 10\<rparr> c2))) \<le> 2"
proof -
  have d: "distinct (map fst c2)" by (simp add: c2_def)
  have r1: "cacheStore 2 ''k3'' \<lparr>userInfo = JStr ''u3'', expiry = 40\<rparr> c2 =
       ([(''k1'', \<lparr>userInfo = JStr ''u1'', expiry = 50\<rparr>),
         (''k3'', \<lparr>userInfo = JStr ''u3'', expiry = 40\<rparr>)], False)"
    by (simp add: cacheStore_def c2_def)
  have r2: "cacheStore 2 ''k3'' \<lparr>userInfo = JStr ''u3'', expiry = 10\<rparr> c2 = (c2, False)"
    by (simp add: cacheStore_def c2_def)
  have "int (length (fst (cacheStore 2 ''k3'' \<lparr>userInfo = JStr ''u3'', expiry = 10\<rparr> c2))) \<le> 2"
    using cache_capacity_bound[OF d, of 2 "''k3''" "\<lparr>userInfo = JStr ''u3'', expiry = 10\<rparr>"]
    by (simp add: r2)
  then show ?thesis using d r1 r2 by simp
qed

section \<open>What holds of every cache the process can hold\<close>

lemma getProp_Inr_nonnull: "getProp u k = Inr x \<Longrightarrow> u \<noteq> JNull"
  by (cases u) auto

lemma cacheLookup_cache:
  "fst (snd (cacheLookup now h c)) = c \<or> fst (snd (cacheLookup now h c)) = AList.delete h c"
  by (simp add: cacheLookup_def split: option.split sum.split)

lemma verify_cache_preserves:
  assumes base: "P c"
    and del: "\<And>k c. P c \<Longrightarrow> P (AList.delete k c)"
    and store: "\<And>u e c c2 b. P c \<Longrightarrow> u \<noteq> JNull \<Longrightarrow>
        cacheStore (TOKEN_CACHE_MAX_SIZE cfg) (hashToken token) \<lparr>userInfo = u, expiry = e\<rparr> c = (c2, b)
        \<Longrightarrow> P c2"
  shows "P (fst (snd (verifyOAuthToken decode cfg idp now token c)))"
proof -
  obtain r c1 ev where l: "cacheLookup now (hashToken token) c = (r, c1, ev)"
    by (cases "cacheLookup now (hashToken token) c") auto
  then have "c1 = c \<or> c1 = AList.delete (hashToken token) c"
    using cacheLookup_cache[of now "hashToken token" c] by simp
  then have P1: "P c1" using base del by auto
  show ?thesis
    using base del[OF base] P1
    by (auto simp: verifyOAuthToken_def Let_def l
             split: if_splits sum.splits option.splits fetch_result.splits prod.splits
             dest!: getProp_Inr_nonnull intro: store)
qed

lemma delete_subset: "set (AList.delete k c) \<subseteq> set c"
  by (auto simp: delete_filter)

lemma reachable_distinct: "reachable decode cfg c \<Longrightarrow> distinct (map fst c)"
proof (induction rule: reachable.induct)
  case start
  then show ?case by simp
next
  case (call c idp now token)
  show ?case
  proof (rule verify_cache_preserves)
    show "distinct (map fst c)" by (rule call.IH)
  next
    fix k and c :: cache
    assume "distinct (map fst c)"
    then show "distinct (map fst (AList.delete k c))" by (rule distinct_delete)
  next
    fix u e c c2 b
    assume "distinct (map fst c)"
      and "cacheStore (TOKEN_CACHE_MAX_SIZE cfg) (hashToken token) \<lparr>userInfo = u, expiry = e\<rparr> c = (c2, b)"
    then show "distinct (map fst c2)"
      using cacheStore_distinct[of c "TOKEN_CACHE_MAX_SIZE cfg" "hashToken token" "\<lparr>userInfo = u, expiry = e\<rparr>"]
      by simp
  qed
qed

lemma reachable_entries:
  "reachable decode cfg c \<Longrightarrow>
     \<forall>kv \<in> set c. userInfo (snd kv) \<noteq> JNull \<and> (\<exists>t. fst kv = hashToken t)"
proof (induction rule: reachable.induct)
  case start
  then show ?case by simp
next
  case (call c idp now token)
  show ?case
  proof (rule verify_cache_preserves)
    show "\<forall>kv \<in> set c. userInfo (snd kv) \<noteq> JNull \<and> (\<exists>t. fst kv = hashToken t)"
      by (rule call.IH)
  next
    fix k and c :: cache
    assume "\<forall>kv \<in> set c. userInfo (snd kv) \<noteq> JNull \<and> (\<exists>t. fst kv = hashToken t)"
    then show "\<forall>kv \<in> set (AList.delete k c). userInfo (snd kv) \<noteq> JNull \<and> (\<exists>t. fst kv = hashToken t)"
      using delete_subset[of k c] by blast
  next
    fix u e c c2 b
    assume inv: "\<forall>kv \<in> set c. userInfo (snd kv) \<noteq> JNull \<and> (\<exists>t. fst kv = hashToken t)"
      and u: "u \<noteq> JNull"
      and st: "cacheStore (TOKEN_CACHE_MAX_SIZE cfg) (hashToken token) \<lparr>userInfo = u, expiry = e\<rparr> c = (c2, b)"
    have "set c2 \<subseteq> insert (hashToken token, \<lparr>userInfo = u, expiry = e\<rparr>) (set c)"
      using cacheStore_subset[of "TOKEN_CACHE_MAX_SIZE cfg" "hashToken token" "\<lparr>userInfo = u, expiry = e\<rparr>" c] st
      by simp
    then show "\<forall>kv \<in> set c2. userInfo (snd kv) \<noteq> JNull \<and> (\<exists>t. fst kv = hashToken t)"
      using inv u by fastforce
  qed
qed

lemma reachable_unconfigured:
  "reachable decode cfg c \<Longrightarrow> \<not> configured (AUTH0_DOMAIN cfg) \<Longrightarrow> c = []"
  by (induction rule: reachable.induct) (simp_all add: verifyOAuthToken_def)

lemma getTokenExpiry_nonzero: "getTokenExpiry decode token = Some e \<Longrightarrow> e \<noteq> 0"
  by (auto simp: getTokenExpiry_def Let_def
           split: if_splits sum.splits option.splits jsvalue.splits)

section \<open>A first request\<close>

text \<open>An opaque token, accepted by the provider at time 0, is cached for the TTL.\<close>

lemma getTokenExpiry_tokA: "getTokenExpiry decode0 ''tokA'' = None"
  by (simp add: getTokenExpiry_def)

lemma verify_tokA:
  "verifyOAuthToken decode0 cfg0 idpAccept 0 ''tokA'' [] =
     (Inr (Some claims0), [(hashToken ''tokA'', \<lparr>userInfo = claims0, expiry = 120000\<rparr>)],
      [Hashed ''tokA'', CacheGet (hashToken ''tokA''), Fetched ''tokA''])"
  by (simp add: verifyOAuthToken_def cfg0_def configured_def getTokenExpiry_tokA expired_def
        cacheLookup_def idpAccept_def ok_def claims0_def cacheStore_def Let_def)

lemma reachable_tokA:
  "reachable decode0 cfg0 [(hashToken ''tokA'', \<lparr>userInfo = claims0, expiry = 120000\<rparr>)]"
  using reachable.call[OF reachable.start, where decode = decode0 and cfg = cfg0
          and idp = idpAccept and now = 0 and token = "''tokA''"]
  by (simp add: verify_tokA)

text \<open>A token with an expiry claim of 50000 ms, accepted at time 0, is cached until then.\<close>

lemma replicate_num: "replicate (numeral n) x = x # replicate (pred_numeral n) x"
  by (simp add: numeral_eq_Suc)

lemma getTokenExpiry_jwt50: "getTokenExpiry decode0 jwt50 = Some 50000"
  by (simp add: getTokenExpiry_def jwt50_def decode0_def Let_def replicate_num)

lemma verify_jwt50:
  "verifyOAuthToken decode0 cfg0 idpAccept 0 jwt50 [] =
     (Inr (Some claims0), [(hashToken jwt50, \<lparr>userInfo = claims0, expiry = 50000\<rparr>)],
      [Hashed jwt50, CacheGet (hashToken jwt50), Fetched jwt50])"
  by (simp add: verifyOAuthToken_def cfg0_def configured_def getTokenExpiry_jwt50 expired_def
        cacheLookup_def idpAccept_def ok_def claims0_def cacheStore_def Let_def)

lemma reachable_jwt50:
  "reachable decode0 cfg0 [(hashToken jwt50, \<lparr>userInfo = claims0, expiry = 50000\<rparr>)]"
  using reachable.call[OF reachable.start, where decode = decode0 and cfg = cfg0
          and idp = idpAccept and now = 0 and token = jwt50]
  by (simp add: verify_jwt50)

section \<open>The lookup\<close>

text \<open>
  C7. In every cache the process can hold, for a digest \<open>D\<close> whose entry has claims \<open>C\<close> and
  expiry \<open>E\<close>: the lookup returns \<open>C\<close> and leaves the cache as it is when \<open>now < E\<close>; when
  \<open>now \<ge> E\<close> it is a miss that removes the entry of \<open>D\<close>; without an entry for \<open>D\<close> it is
  a miss that leaves the cache as it is.
\<close>

theorem cache_lookup_correct:
  assumes "reachable decode cfg c"
  shows "(\<forall>C E. map_of c D = Some \<lparr>userInfo = C, expiry = E\<rparr> \<longrightarrow>
            (now < E \<longrightarrow> cacheLookup now D c = (Inr (Some C), c, [CacheGet D]))
          \<and> (now \<ge> E \<longrightarrow>
                 fst (cacheLookup now D c) = Inr None
               \<and> fst (snd (cacheLookup now D c)) = AList.delete D c
               \<and> map_of (fst (snd (cacheLookup now D c))) D = None))
       \<and> (map_of c D = None \<longrightarrow> cacheLookup now D c = (Inr None, c, [CacheGet D]))"
proof (intro conjI allI impI)
  fix C E
  assume e: "map_of c D = Some \<lparr>userInfo = C, expiry = E\<rparr>" and "now < E"
  have "(D, \<lparr>userInfo = C, expiry = E\<rparr>) \<in> set c" using e by (rule map_of_SomeD)
  then have "C \<noteq> JNull" using reachable_entries[OF assms] by fastforce
  then obtain x where "getProp C ''email'' = Inr x" by (cases C) auto
  then show "cacheLookup now D c = (Inr (Some C), c, [CacheGet D])"
    using e \<open>now < E\<close> by (simp add: cacheLookup_def)
next
  fix C E
  assume e: "map_of c D = Some \<lparr>userInfo = C, expiry = E\<rparr>" and "E \<le> now"
  then show "fst (cacheLookup now D c) = Inr None" by (simp add: cacheLookup_def)
  from e \<open>E \<le> now\<close> show "fst (snd (cacheLookup now D c)) = AList.delete D c"
    by (simp add: cacheLookup_def)
  from e \<open>E \<le> now\<close> show "map_of (fst (snd (cacheLookup now D c))) D = None"
    by (simp add: cacheLookup_def delete_conv)
next
  assume "map_of c D = None"
  then show "cacheLookup now D c = (Inr None, c, [CacheGet D])" by (simp add: cacheLookup_def)
qed

theorem cache_lookup_correct_witness:
  "reachable decode0 cfg0 [(hashToken ''tokA'', \<lparr>userInfo = claims0, expiry = 120000\<rparr>)]
   \<and> cacheLookup 119999 (hashToken ''tokA'')
         [(hashToken ''tokA'', \<lparr>userInfo = claims0, expiry = 120000\<rparr>)]
       = (Inr (Some claims0), [(hashToken ''tokA'', \<lparr>userInfo = claims0, expiry = 120000\<rparr>)],
          [CacheGet (hashToken ''tokA'')])
   \<and> fst (cacheLookup 120000 (hashToken ''tokA'')
         [(hashToken ''tokA'', \<lparr>userInfo = claims0, expiry = 120000\<rparr>)]) = Inr None
   \<and> fst (snd (cacheLookup 120000 (hashToken ''tokA'')
         [(hashToken ''tokA'', \<lparr>userInfo = claims0, expiry = 120000\<rparr>)])) = []
   \<and> cacheLookup 5 (hashToken ''tokA'') [] = (Inr None, [], [CacheGet (hashToken ''tokA'')])"
  using cache_lookup_correct[OF reachable_tokA, where D = "hashToken ''tokA''" and now = 119999]
        cache_lookup_correct[OF reachable_tokA, where D = "hashToken ''tokA''" and now = 120000]
        cache_lookup_correct[OF reachable.start, where D = "hashToken ''tokA''" and now = 5]
        reachable_tokA
  by simp

section \<open>The local expiry check\<close>

text \<open>
  C2. For every token whose locally extracted expiry instant is at or before the current
  time, in every cache the process can hold: the validator returns \<^verbatim>\<open>null\<close> (Invalid), the
  cache it leaves has no entry for the digest of the token, and the identity provider is
  not called.
\<close>

theorem local_expiry_short_circuit:
  assumes "reachable decode cfg c"
    and "getTokenExpiry decode token = Some e"
    and "e \<le> now"
  shows "fst (verifyOAuthToken decode cfg idp now token c) = Inr None
       \<and> map_of (fst (snd (verifyOAuthToken decode cfg idp now token c))) (hashToken token) = None
       \<and> (\<forall>t. Fetched t \<notin> set (snd (snd (verifyOAuthToken decode cfg idp now token c))))"
proof (cases "configured (AUTH0_DOMAIN cfg)")
  case True
  have "expired (Some e) now"
    using assms(3) getTokenExpiry_nonzero[OF assms(2)] by (simp add: expired_def)
  then show ?thesis
    using True assms(2) by (simp add: verifyOAuthToken_def Let_def delete_conv)
next
  case False
  then have "c = []" using assms(1) by (simp add: reachable_unconfigured)
  then show ?thesis using False by (simp add: verifyOAuthToken_def)
qed

theorem local_expiry_short_circuit_witness:
  "reachable decode0 cfg0 [(hashToken jwt50, \<lparr>userInfo = claims0, expiry = 50000\<rparr>)]
   \<and> getTokenExpiry decode0 jwt50 = Some 50000 \<and> (50000 :: int) \<le> 50000
   \<and> verifyOAuthToken decode0 cfg0 idpAccept 50000 jwt50
         [(hashToken jwt50, \<lparr>userInfo = claims0, expiry = 50000\<rparr>)]
       = (Inr None, [], [Hashed jwt50])"
proof -
  have le: "(50000 :: int) \<le> 50000" by simp
  have run: "verifyOAuthToken decode0 cfg0 idpAccept 50000 jwt50
         [(hashToken jwt50, \<lparr>userInfo = claims0, expiry = 50000\<rparr>)]
       = (Inr None, [], [Hashed jwt50])"
    by (simp add: verifyOAuthToken_def cfg0_def configured_def getTokenExpiry_jwt50 expired_def)
  note local_expiry_short_circuit[OF reachable_jwt50 getTokenExpiry_jwt50 le, where idp = idpAccept]
  then show ?thesis using reachable_jwt50 getTokenExpiry_jwt50 run by simp
qed

section \<open>A provider that rejects\<close>

lemma cacheLookup_miss:
  assumes "cacheLookup now h c = (Inr None, c1, ev)"
  shows "c1 = AList.delete h c \<and> set c1 \<subseteq> set c \<and> (map_of c h = None \<longrightarrow> c1 = c)"
proof (cases "map_of c h")
  case None
  then have "h \<notin> fst ` set c" by (simp add: map_of_eq_None_iff)
  then have "AList.delete h c = c" by simp
  then show ?thesis using assms None by (simp add: cacheLookup_def)
next
  case (Some cached)
  then show ?thesis
    using assms delete_subset[of h c]
    by (auto simp: cacheLookup_def split: if_splits sum.splits)
qed

text \<open>
  C8, as the code has it. When the identity provider is called for a token and the call
  fails at the network level or answers with a non-success status, the validator returns
  \<^verbatim>\<open>null\<close> (Invalid) and does not throw; nothing is inserted: the cache it leaves is the
  cache before without the entry of the token's digest (a stale entry, removed by the
  lookup that preceded the call), and is the cache before when there was no such entry.
\<close>

theorem provider_rejection_inserts_nothing:
  assumes "Fetched token \<in> set (snd (snd (verifyOAuthToken decode cfg idp now token c)))"
    and "idp token = NetworkFailure
         \<or> (\<exists>status body. idp token = HttpResponse status body \<and> \<not> ok status)"
  shows "fst (verifyOAuthToken decode cfg idp now token c) = Inr None
       \<and> fst (snd (verifyOAuthToken decode cfg idp now token c)) = AList.delete (hashToken token) c
       \<and> set (fst (snd (verifyOAuthToken decode cfg idp now token c))) \<subseteq> set c
       \<and> (map_of c (hashToken token) = None \<longrightarrow>
            fst (snd (verifyOAuthToken decode cfg idp now token c)) = c)"
proof -
  obtain r c1 ev where l: "cacheLookup now (hashToken token) c = (r, c1, ev)"
    by (cases "cacheLookup now (hashToken token) c") auto
  have ev: "Fetched token \<notin> set ev"
    using l by (auto simp: cacheLookup_def split: option.splits if_splits sum.splits)
  have cfgd: "configured (AUTH0_DOMAIN cfg)"
    using assms(1) by (auto simp: verifyOAuthToken_def split: if_splits)
  have nexp: "\<not> expired (getTokenExpiry decode token) now"
    using assms(1) cfgd by (auto simp: verifyOAuthToken_def Let_def split: if_splits)
  have miss: "r = Inr None"
    using assms(1) cfgd nexp ev
    by (auto simp: verifyOAuthToken_def Let_def l split: sum.splits option.splits)
  have run: "verifyOAuthToken decode cfg idp now token c
               = (Inr None, c1, Hashed token # ev @ [Fetched token])"
    using assms(2) cfgd nexp miss
    by (auto simp: verifyOAuthToken_def Let_def l)
  show ?thesis
    using cacheLookup_miss[OF l[unfolded miss]] by (auto simp: run)
qed

theorem provider_rejection_inserts_nothing_witness:
  "Fetched ''tokA'' \<in> set (snd (snd (verifyOAuthToken decode0 cfg0 idpReject 120000 ''tokA''
       [(hashToken ''tokA'', \<lparr>userInfo = claims0, expiry = 120000\<rparr>)])))
   \<and> idpReject ''tokA'' = HttpResponse 401 (Inl SyntaxError) \<and> \<not> ok 401
   \<and> fst (verifyOAuthToken decode0 cfg0 idpReject 120000 ''tokA''
       [(hashToken ''tokA'', \<lparr>userInfo = claims0, expiry = 120000\<rparr>)]) = Inr None
   \<and> fst (snd (verifyOAuthToken decode0 cfg0 idpReject 120000 ''tokA''
       [(hashToken ''tokA'', \<lparr>userInfo = claims0, expiry = 120000\<rparr>)])) = []"
proof -
  have run: "verifyOAuthToken decode0 cfg0 idpReject 120000 ''tokA''
       [(hashToken ''tokA'', \<lparr>userInfo = claims0, expiry = 120000\<rparr>)]
      = (Inr None, [], [Hashed ''tokA'', CacheGet (hashToken ''tokA''), Fetched ''tokA''])"
    by (simp add: verifyOAuthToken_def cfg0_def configured_def getTokenExpiry_tokA expired_def
        cacheLookup_def idpReject_def ok_def Let_def)
  have f: "Fetched ''tokA'' \<in> set (snd (snd (verifyOAuthToken decode0 cfg0 idpReject 120000 ''tokA''
       [(hashToken ''tokA'', \<lparr>userInfo = claims0, expiry = 120000\<rparr>)])))"
    by (simp add: run)
  have r: "idpReject ''tokA'' = NetworkFailure
         \<or> (\<exists>status body. idpReject ''tokA'' = HttpResponse status body \<and> \<not> ok status)"
    by (simp add: idpReject_def ok_def)
  have i: "idpReject ''tokA'' = HttpResponse 401 (Inl SyntaxError) \<and> \<not> ok 401"
    by (simp add: idpReject_def ok_def)
  from provider_rejection_inserts_nothing[OF f r] f i show ?thesis
    by simp
qed

text \<open>
  C8 as stated fails: the cache is not always left unchanged. A token cached at time 0
  until 120000 and presented again at 120000 to a provider that now answers 401: the
  validator returns \<^verbatim>\<open>null\<close>, and the cache, which held the entry, is empty.
\<close>

theorem provider_rejection_changes_cache:
  "idpReject ''tokA'' = HttpResponse 401 (Inl SyntaxError) \<and> \<not> ok 401
   \<and> fst (snd (verifyOAuthToken decode0 cfg0 idpAccept 0 ''tokA'' []))
       = [(hashToken ''tokA'', \<lparr>userInfo = claims0, expiry = 120000\<rparr>)]
   \<and> verifyOAuthToken decode0 cfg0 idpReject 120000 ''tokA''
         (fst (snd (verifyOAuthToken decode0 cfg0 idpAccept 0 ''tokA'' [])))
       = (Inr None, [], [Hashed ''tokA'', CacheGet (hashToken ''tokA''), Fetched ''tokA''])
   \<and> fst (snd (verifyOAuthToken decode0 cfg0 idpReject 120000 ''tokA''
         (fst (snd (verifyOAuthToken decode0 cfg0 idpAccept 0 ''tokA'' [])))))
       \<noteq> fst (snd (verifyOAuthToken decode0 cfg0 idpAccept 0 ''tokA'' []))"
  by (simp add: verify_tokA)
     (simp add: verifyOAuthToken_def cfg0_def configured_def getTokenExpiry_tokA expired_def
        cacheLookup_def idpReject_def ok_def Let_def)

section \<open>The credential read from the header\<close>

lemma trim_blank:
  assumes "\<forall>ch \<in> set ws. isWhiteSpace ch"
  shows "trim ws = []"
proof -
  have "dropWhile isWhiteSpace ws = []" using assms by (induction ws) auto
  then have "trim ws = rev (dropWhile isWhiteSpace (rev []))" by (simp only: trim_def)
  then show ?thesis by simp
qed

lemma startsWith_append: "length pat \<le> length xs \<Longrightarrow> startsWith (xs @ ys) pat = startsWith xs pat"
  by (simp add: startsWith_def)

lemma replaceFirst_absent: "\<not> occurs pat s \<Longrightarrow> replaceFirst pat rep s = s"
  by (induction s) auto

lemma replaceFirst_here: "replaceFirst pat rep (pat @ suf) = rep @ suf"
proof (cases "pat @ suf")
  case Nil
  then show ?thesis by simp
next
  case (Cons a list)
  have "startsWith (pat @ suf) pat" by (simp add: startsWith_def)
  then have "replaceFirst pat rep (a # list) = rep @ drop (length pat) (a # list)"
    using Cons by simp
  moreover have "drop (length pat) (a # list) = suf"
    using Cons by (metis append_eq_conv_conj)
  ultimately show ?thesis using Cons by simp
qed

lemma replaceFirst_first:
  assumes "pat \<noteq> []" "\<not> occurs pat (pre @ butlast pat)"
  shows "replaceFirst pat rep (pre @ pat @ suf) = pre @ rep @ suf"
  using assms(2)
proof (induction pre)
  case Nil
  show ?case using replaceFirst_here[of pat rep suf] by simp
next
  case (Cons a pre)
  let ?xs = "a # pre @ butlast pat"
  have n: "\<not> startsWith ?xs pat" and rest: "\<not> occurs pat (pre @ butlast pat)"
    using Cons.prems by simp_all
  have whole: "a # pre @ pat @ suf = ?xs @ (last pat # suf)"
    using assms(1) by (metis append.assoc append_Cons append_Nil append_butlast_last_id)
  have "length pat \<le> length ?xs" by simp
  then have "startsWith (?xs @ (last pat # suf)) pat = startsWith ?xs pat"
    by (rule startsWith_append)
  then have "\<not> startsWith (a # pre @ pat @ suf) pat"
    using n whole by metis
  then show ?case using Cons.IH[OF rest] by simp
qed

lemma blank_no_Bearer:
  assumes "\<forall>ch \<in> set ws. isWhiteSpace ch"
  shows "\<not> occurs ''Bearer '' ws"
  using assms
proof (induction ws)
  case Nil
  then show ?case by simp
next
  case (Cons ch ws)
  then have "ch \<noteq> CHR ''B''" by (auto simp: isWhiteSpace_def)
  then show ?case using Cons by (simp add: startsWith_def)
qed

lemma bearerToken_blank:
  assumes "\<forall>ch \<in> set ws. isWhiteSpace ch"
  shows "bearerToken None = []" and "bearerToken (Some ws) = []"
    and "bearerToken (Some (''Bearer '' @ ws)) = []"
proof -
  show "bearerToken None = []" by (simp add: bearerToken_def trim_def)
  show "bearerToken (Some ws) = []"
    using assms by (simp add: bearerToken_def replaceFirst_absent blank_no_Bearer trim_blank)
  have "replaceFirst ''Bearer '' [] (''Bearer '' @ ws) = ws"
    using replaceFirst_here[of "''Bearer ''" "[]" ws] by simp
  then show "bearerToken (Some (''Bearer '' @ ws)) = []"
    using assms by (simp add: bearerToken_def trim_blank del: replaceFirst.simps)
qed

lemma mcp_not_exempt:
  assumes "startsWith p ''/mcp''"
  shows "p \<noteq> ''/health''" and "\<not> startsWith p ''/.well-known/''"
proof -
  obtain q where p: "p = ''/mcp'' @ q"
    using assms by (metis append_take_drop_id startsWith_def)
  show "p \<noteq> ''/health''" by (simp add: p)
  show "\<not> startsWith p ''/.well-known/''" by (simp add: p startsWith_def)
qed

lemma trim_split:
  "s = takeWhile isWhiteSpace s @ trim s @ rev (takeWhile isWhiteSpace (rev (dropWhile isWhiteSpace s)))"
proof -
  let ?d = "dropWhile isWhiteSpace s"
  have "rev (takeWhile isWhiteSpace (rev ?d) @ dropWhile isWhiteSpace (rev ?d)) = ?d"
    by (simp only: takeWhile_dropWhile_id rev_rev_ident)
  then have "rev (dropWhile isWhiteSpace (rev ?d)) @ rev (takeWhile isWhiteSpace (rev ?d)) = ?d"
    by (simp only: rev_append)
  then have "?d = trim s @ rev (takeWhile isWhiteSpace (rev ?d))"
    by (simp only: trim_def)
  then show ?thesis by (metis takeWhile_dropWhile_id)
qed

lemma trim_surround:
  "\<exists>before after. s = before @ trim s @ after
      \<and> (\<forall>ch \<in> set before. isWhiteSpace ch) \<and> (\<forall>ch \<in> set after. isWhiteSpace ch)"
proof (intro conjI exI)
  show "s = takeWhile isWhiteSpace s @ trim s
              @ rev (takeWhile isWhiteSpace (rev (dropWhile isWhiteSpace s)))"
    by (rule trim_split)
  show "\<forall>ch \<in> set (takeWhile isWhiteSpace s). isWhiteSpace ch"
    by (auto dest: set_takeWhileD)
  show "\<forall>ch \<in> set (rev (takeWhile isWhiteSpace (rev (dropWhile isWhiteSpace s)))). isWhiteSpace ch"
    by (auto dest: set_takeWhileD)
qed

lemma trim_ends:
  assumes "trim s \<noteq> []"
  shows "\<not> isWhiteSpace (hd (trim s))" and "\<not> isWhiteSpace (last (trim s))"
proof -
  let ?d = "dropWhile isWhiteSpace s"
  let ?e = "dropWhile isWhiteSpace (rev ?d)"
  have e: "?e \<noteq> []" using assms by (simp add: trim_def)
  then have "\<not> isWhiteSpace (hd ?e)" by (rule hd_dropWhile)
  moreover have "last (trim s) = hd ?e" using e by (simp add: trim_def last_rev)
  ultimately show "\<not> isWhiteSpace (last (trim s))" by simp
  have d: "?d = trim s @ rev (takeWhile isWhiteSpace (rev ?d))"
    using trim_split[of s] by (metis same_append_eq takeWhile_dropWhile_id)
  then have "?d \<noteq> []" using assms by (metis append_is_Nil_conv)
  then have "\<not> isWhiteSpace (hd ?d)" by (rule hd_dropWhile)
  moreover have "hd ?d = hd (trim s)" using d assms by (metis hd_append2)
  ultimately show "\<not> isWhiteSpace (hd (trim s))" by simp
qed

lemma dropWhile_blank: "\<forall>ch \<in> set ws. P ch \<Longrightarrow> dropWhile P (ws @ xs) = dropWhile P xs"
  by (induction ws) auto

lemma dropWhile_keep: "xs \<noteq> [] \<Longrightarrow> \<not> P (hd xs) \<Longrightarrow> dropWhile P xs = xs"
  by (cases xs) auto

lemma trim_unique:
  assumes s: "s = before @ t @ after"
    and b: "\<forall>ch \<in> set before. isWhiteSpace ch" and a: "\<forall>ch \<in> set after. isWhiteSpace ch"
    and ends: "t \<noteq> [] \<longrightarrow> \<not> isWhiteSpace (hd t) \<and> \<not> isWhiteSpace (last t)"
  shows "t = trim s"
proof (cases "t = []")
  case True
  then have "\<forall>ch \<in> set s. isWhiteSpace ch" using s a b by auto
  then show ?thesis using True by (simp add: trim_blank)
next
  case False
  have "dropWhile isWhiteSpace s = dropWhile isWhiteSpace (t @ after)"
    unfolding s using b by (rule dropWhile_blank)
  also have "\<dots> = t @ after"
    using False ends by (intro dropWhile_keep) simp_all
  finally have d: "dropWhile isWhiteSpace s = t @ after" .
  have "dropWhile isWhiteSpace (rev after @ rev t) = dropWhile isWhiteSpace (rev t)"
    using a by (intro dropWhile_blank) simp
  also have "\<dots> = rev t"
    using False ends by (intro dropWhile_keep) (simp_all add: hd_rev)
  finally show ?thesis by (simp add: trim_def d)
qed

lemma trim_empty_iff: "trim s = [] \<longleftrightarrow> (\<forall>ch \<in> set s. isWhiteSpace ch)"
proof
  assume e: "trim s = []"
  have "s = takeWhile isWhiteSpace s @ trim s
              @ rev (takeWhile isWhiteSpace (rev (dropWhile isWhiteSpace s)))"
    by (rule trim_split)
  then have "set s = set (takeWhile isWhiteSpace s)
                 \<union> set (takeWhile isWhiteSpace (rev (dropWhile isWhiteSpace s)))"
    using e by (metis append_Nil set_append set_rev)
  then show "\<forall>ch \<in> set s. isWhiteSpace ch" by (auto dest: set_takeWhileD)
next
  assume "\<forall>ch \<in> set s. isWhiteSpace ch"
  then show "trim s = []" by (rule trim_blank)
qed

lemma occurs_iff: "occurs pat s \<longleftrightarrow> (\<exists>pre suf. s = pre @ pat @ suf)"
proof
  show "occurs pat s \<Longrightarrow> \<exists>pre suf. s = pre @ pat @ suf"
  proof (induction s)
    case Nil
    then show ?case by simp
  next
    case (Cons ch s)
    show ?case
    proof (cases "startsWith (ch # s) pat")
      case True
      then have "ch # s = [] @ pat @ drop (length pat) (ch # s)"
        by (metis append_Nil append_take_drop_id startsWith_def)
      then show ?thesis by blast
    next
      case False
      then have "occurs pat s" using Cons.prems by simp
      then obtain pre suf where "s = pre @ pat @ suf" using Cons.IH by blast
      then have "ch # s = (ch # pre) @ pat @ suf" by simp
      then show ?thesis by blast
    qed
  qed
next
  assume "\<exists>pre suf. s = pre @ pat @ suf"
  then obtain pre suf where s: "s = pre @ pat @ suf" by blast
  have "occurs pat (pre @ pat @ suf)"
  proof (induction pre)
    case Nil
    show ?case
    proof (cases "pat @ suf")
      case Nil
      then show ?thesis by simp
    next
      case (Cons a list)
      have "startsWith (pat @ suf) pat" by (simp add: startsWith_def)
      then show ?thesis using Cons by simp
    qed
  next
    case (Cons a pre)
    then show ?case by simp
  qed
  then show "occurs pat s" by (simp only: s)
qed

lemma short_no_occurs: "length xs < length pat \<Longrightarrow> \<not> occurs pat xs"
proof (induction xs)
  case Nil
  then show ?case by auto
next
  case (Cons ch xs)
  have "length (take (length pat) (ch # xs)) \<noteq> length pat" using Cons.prems by simp
  then have "\<not> startsWith (ch # xs) pat" unfolding startsWith_def by metis
  then show ?case using Cons by simp
qed

lemma first_occurrence_exists:
  assumes "pat \<noteq> []"
  shows "occurs pat s \<Longrightarrow> \<exists>pre suf. s = pre @ pat @ suf \<and> \<not> occurs pat (pre @ butlast pat)"
proof (induction s)
  case Nil
  then show ?case using assms by simp
next
  case (Cons ch s)
  show ?case
  proof (cases "startsWith (ch # s) pat")
    case True
    then have "ch # s = [] @ pat @ drop (length pat) (ch # s)"
      by (metis append_Nil append_take_drop_id startsWith_def)
    moreover have "\<not> occurs pat ([] @ butlast pat)"
      using assms by (simp add: short_no_occurs)
    ultimately show ?thesis by blast
  next
    case False
    then have "occurs pat s" using Cons.prems by simp
    then obtain pre suf where s: "s = pre @ pat @ suf" and n: "\<not> occurs pat (pre @ butlast pat)"
      using Cons.IH by blast
    let ?xs = "ch # pre @ butlast pat"
    have whole: "ch # s = ?xs @ (last pat # suf)"
      using assms s by (metis append.assoc append_Cons append_Nil append_butlast_last_id)
    have "length pat \<le> length ?xs" by simp
    then have "startsWith (?xs @ (last pat # suf)) pat = startsWith ?xs pat"
      by (rule startsWith_append)
    then have "\<not> startsWith ?xs pat" using False whole by metis
    then have "\<not> occurs pat ((ch # pre) @ butlast pat)" using n by simp
    moreover have "ch # s = (ch # pre) @ pat @ suf" using s by simp
    ultimately show ?thesis by blast
  qed
qed

lemma first_is_leftmost:
  assumes "pat \<noteq> []" and "\<not> occurs pat (pre @ butlast pat)"
    and "pre @ pat @ suf = p @ pat @ q"
  shows "length pre \<le> length p"
proof (rule ccontr)
  assume "\<not> length pre \<le> length p"
  then have lt: "length p < length pre" by simp
  have "take (length p) (pre @ pat @ suf) = p" using assms(3) by simp
  then have "p = take (length p) pre" using lt by simp
  then obtain r where pre: "pre = p @ r" by (metis append_take_drop_id)
  then have r: "r \<noteq> []" using lt by auto
  have eq: "r @ pat @ suf = pat @ q" using assms(3) pre by simp
  have split: "r @ pat @ suf = (r @ butlast pat) @ (last pat # suf)"
    using assms(1) by simp
  have len: "length pat \<le> length (r @ butlast pat)" using r by (cases r) simp_all
  have "take (length pat) (r @ butlast pat)
          = take (length pat) ((r @ butlast pat) @ (last pat # suf))"
    using len by simp
  also have "\<dots> = take (length pat) (pat @ q)" by (simp only: split[symmetric] eq)
  also have "\<dots> = pat" by simp
  finally have "r @ butlast pat = pat @ drop (length pat) (r @ butlast pat)"
    by (metis append_take_drop_id)
  then have "pre @ butlast pat = p @ pat @ drop (length pat) (r @ butlast pat)"
    using pre by simp
  then have "occurs pat (pre @ butlast pat)" using occurs_iff by blast
  then show False using assms(2) by simp
qed

lemma leftmost_is_first:
  assumes "pat \<noteq> []"
    and "\<forall>p q. pre @ pat @ suf = p @ pat @ q \<longrightarrow> length pre \<le> length p"
  shows "\<not> occurs pat (pre @ butlast pat)"
proof
  assume "occurs pat (pre @ butlast pat)"
  then obtain p q where e: "pre @ butlast pat = p @ pat @ q" using occurs_iff by blast
  then have "length (pre @ butlast pat) = length (p @ pat @ q)" by simp
  moreover have "length (butlast pat) < length pat" using assms(1) by simp
  ultimately have "length p < length pre" by simp
  moreover have "pre @ pat @ suf = (pre @ butlast pat) @ (last pat # suf)"
    using assms(1) by simp
  then have "pre @ pat @ suf = p @ pat @ (q @ last pat # suf)" using e by simp
  then have "length pre \<le> length p" using assms(2) by blast
  ultimately show False by simp
qed

lemma verify_trace_events:
  "set (snd (snd (verifyOAuthToken decode cfg idp now token c)))
     \<subseteq> {Hashed token, CacheGet (hashToken token), Fetched token}"
  by (auto simp: verifyOAuthToken_def Let_def cacheLookup_def
           split: prod.splits sum.splits option.splits fetch_result.splits if_splits)

lemma gate_trace:
  "snd (snd (authMiddleware decode cfg idp now req c)) = []
   \<or> (bearerToken (authorization req) \<noteq> []
      \<and> snd (snd (authMiddleware decode cfg idp now req c))
          = snd (snd (verifyOAuthToken decode cfg idp now (bearerToken (authorization req)) c)))"
  by (auto simp: authMiddleware_def Let_def split: prod.splits sum.splits)

lemma gate_blank:
  "bearerToken (authorization req) = [] \<Longrightarrow> snd (authMiddleware decode cfg idp now req c) = (c, [])"
  by (simp add: authMiddleware_def)

lemma verify_reject_tokA:
  "verifyOAuthToken decode0 cfg0 idpReject 0 ''tokA'' [] =
     (Inr None, [], [Hashed ''tokA'', CacheGet (hashToken ''tokA''), Fetched ''tokA''])"
  by (simp add: verifyOAuthToken_def cfg0_def configured_def getTokenExpiry_tokA expired_def
        cacheLookup_def idpReject_def ok_def Let_def)

section \<open>A blank credential\<close>

text \<open>
  C5. The validator is not exported and has one call, line 266 of the gate, behind the
  \<^verbatim>\<open>trim\<close> of line 251 and the test \<^verbatim>\<open>if (!token)\<close> of line 253: that test is the
  validator's first step. For every request, cache and time: the credential is empty after
  the trim exactly when the header without the first \<^verbatim>\<open>Bearer\<close> and space is white space
  only (so when the header is absent, white space only, or \<^verbatim>\<open>Bearer\<close> and a space followed by
  white space only); then the request hashes nothing, reads and changes no cache entry and
  calls no identity provider, and on a path under \<^verbatim>\<open>/mcp\<close> (not a preflight) of a configured
  gateway it is answered 401 \<^verbatim>\<open>Unauthorized - No token\<close> with the challenge header. And
  whatever a request hashes, looks up or sends to the identity provider is its credential,
  which is then neither empty nor white space only.
\<close>

theorem blank_credential_stops_before_validation:
  "(bearerToken (authorization req) = []
      \<longleftrightarrow> (\<forall>ch \<in> set (replaceFirst ''Bearer '' []
                          (case authorization req of None \<Rightarrow> [] | Some H \<Rightarrow> H)). isWhiteSpace ch))
   \<and> (\<forall>ws. (\<forall>ch \<in> set ws. isWhiteSpace ch)
          \<longrightarrow> bearerToken None = [] \<and> bearerToken (Some ws) = []
              \<and> bearerToken (Some (''Bearer '' @ ws)) = [])
   \<and> (bearerToken (authorization req) = []
        \<longrightarrow> snd (authMiddleware decode cfg idp now req c) = (c, []))
   \<and> (bearerToken (authorization req) = [] \<and> startsWith (path req) ''/mcp''
        \<and> httpMethod req \<noteq> ''OPTIONS'' \<and> configured (AUTH0_DOMAIN cfg)
        \<longrightarrow> authMiddleware decode cfg idp now req c =
              (Inr (Send 401 (Some (challenge cfg False)) ''Unauthorized - No token''), c, []))
   \<and> (\<forall>ev \<in> set (snd (snd (authMiddleware decode cfg idp now req c))).
         bearerToken (authorization req) \<noteq> []
       \<and> \<not> (\<forall>ch \<in> set (bearerToken (authorization req)). isWhiteSpace ch)
       \<and> (ev = Hashed (bearerToken (authorization req))
          \<or> ev = CacheGet (hashToken (bearerToken (authorization req)))
          \<or> ev = Fetched (bearerToken (authorization req))))"
proof -
  let ?tok = "bearerToken (authorization req)"
  let ?trace = "snd (snd (authMiddleware decode cfg idp now req c))"
  let ?raw = "replaceFirst ''Bearer '' [] (case authorization req of None \<Rightarrow> [] | Some H \<Rightarrow> H)"
  have blank: "?tok = []
      \<longleftrightarrow> (\<forall>ch \<in> set (replaceFirst ''Bearer '' []
                          (case authorization req of None \<Rightarrow> [] | Some H \<Rightarrow> H)). isWhiteSpace ch)"
    by (simp only: bearerToken_def Let_def trim_empty_iff)
  have shapes: "\<forall>ws. (\<forall>ch \<in> set ws. isWhiteSpace ch)
          \<longrightarrow> bearerToken None = [] \<and> bearerToken (Some ws) = []
              \<and> bearerToken (Some (''Bearer '' @ ws)) = []"
    using bearerToken_blank by blast
  have quiet: "?tok = [] \<longrightarrow> snd (authMiddleware decode cfg idp now req c) = (c, [])"
    using gate_blank by blast
  have answer: "?tok = [] \<and> startsWith (path req) ''/mcp''
        \<and> httpMethod req \<noteq> ''OPTIONS'' \<and> configured (AUTH0_DOMAIN cfg)
        \<longrightarrow> authMiddleware decode cfg idp now req c =
              (Inr (Send 401 (Some (challenge cfg False)) ''Unauthorized - No token''), c, [])"
  proof
    assume a: "?tok = [] \<and> startsWith (path req) ''/mcp''
        \<and> httpMethod req \<noteq> ''OPTIONS'' \<and> configured (AUTH0_DOMAIN cfg)"
    then have "path req \<noteq> ''/health''" "\<not> startsWith (path req) ''/.well-known/''"
      using mcp_not_exempt by blast+
    then show "authMiddleware decode cfg idp now req c =
              (Inr (Send 401 (Some (challenge cfg False)) ''Unauthorized - No token''), c, [])"
      using a by (simp add: authMiddleware_def)
  qed
  have events: "\<forall>ev \<in> set ?trace.
         ?tok \<noteq> [] \<and> \<not> (\<forall>ch \<in> set ?tok. isWhiteSpace ch)
       \<and> (ev = Hashed ?tok \<or> ev = CacheGet (hashToken ?tok) \<or> ev = Fetched ?tok)"
  proof
    fix ev
    assume ev: "ev \<in> set ?trace"
    then have "?trace \<noteq> []" by auto
    then have ne: "?tok \<noteq> []"
      and tr: "?trace = snd (snd (verifyOAuthToken decode cfg idp now ?tok c))"
      using gate_trace[of decode cfg idp now req c] by blast+
    have td: "?tok = trim ?raw" by (simp add: bearerToken_def)
    then have "trim ?raw \<noteq> []" using ne by simp
    then have "\<not> isWhiteSpace (hd (trim ?raw))" by (rule trim_ends)
    then have "\<not> isWhiteSpace (hd ?tok)" unfolding td .
    moreover have "hd ?tok \<in> set ?tok" using ne by simp
    ultimately have nb: "\<not> (\<forall>ch \<in> set ?tok. isWhiteSpace ch)" by blast
    have "ev \<in> {Hashed ?tok, CacheGet (hashToken ?tok), Fetched ?tok}"
      using ev tr verify_trace_events[of decode cfg idp now ?tok c] by auto
    then have "ev = Hashed ?tok \<or> ev = CacheGet (hashToken ?tok) \<or> ev = Fetched ?tok"
      by blast
    then show "?tok \<noteq> [] \<and> \<not> (\<forall>ch \<in> set ?tok. isWhiteSpace ch)
       \<and> (ev = Hashed ?tok \<or> ev = CacheGet (hashToken ?tok) \<or> ev = Fetched ?tok)"
      using ne nb by (intro conjI)
  qed
  from blank shapes quiet answer events show ?thesis by (intro conjI)
qed

theorem blank_credential_stops_before_validation_witness:
  "isWhiteSpace CHR '' ''
   \<and> bearerToken (Some ''Bearer   '') = []
   \<and> authMiddleware decode0 cfg0 idpAccept 0 (mcpRequest (Some ''Bearer   '')) [] =
       (Inr (Send 401 (Some (challenge cfg0 False)) ''Unauthorized - No token''), [], [])
   \<and> authMiddleware decode0 cfg0 idpAccept 0 (mcpRequest (Some ''   '')) [] =
       (Inr (Send 401 (Some (challenge cfg0 False)) ''Unauthorized - No token''), [], [])
   \<and> authMiddleware decode0 cfg0 idpAccept 0 (mcpRequest None) [] =
       (Inr (Send 401 (Some (challenge cfg0 False)) ''Unauthorized - No token''), [], [])
   \<and> snd (authMiddleware decode0 cfg0 idpAccept 0 otherRequest c2) = (c2, [])
   \<and> Fetched ''tokA'' \<in> set (snd (snd (authMiddleware decode0 cfg0 idpReject 0
                                          (mcpRequest (Some ''Bearer tokA'')) [])))
   \<and> bearerToken (Some ''Bearer tokA'') = ''tokA''
   \<and> (\<exists>ch \<in> set ''tokA''. \<not> isWhiteSpace ch)"
proof -
  have p: "startsWith (path (mcpRequest h)) ''/mcp''" for h
    by (simp add: mcpRequest_def startsWith_def)
  have m: "httpMethod (mcpRequest h) \<noteq> ''OPTIONS''" for h
    by (simp add: mcpRequest_def)
  have a: "authorization (mcpRequest h) = h" for h
    by (simp add: mcpRequest_def)
  have d: "configured (AUTH0_DOMAIN cfg0)" by (simp add: cfg0_def configured_def)
  have sp: "isWhiteSpace CHR '' ''" by (simp add: isWhiteSpace_def)
  have w2: "\<forall>ch \<in> set ''  ''. isWhiteSpace ch" using sp by simp
  have w3: "\<forall>ch \<in> set ''   ''. isWhiteSpace ch" using sp by simp
  note t1 = blank_credential_stops_before_validation
              [where req = "mcpRequest (Some ''Bearer   '')" and decode = decode0 and cfg = cfg0
                 and idp = idpAccept and now = 0 and c = "[]"]
  note t2 = blank_credential_stops_before_validation
              [where req = "mcpRequest (Some ''   '')" and decode = decode0 and cfg = cfg0
                 and idp = idpAccept and now = 0 and c = "[]"]
  note t3 = blank_credential_stops_before_validation
              [where req = "mcpRequest None" and decode = decode0 and cfg = cfg0
                 and idp = idpAccept and now = 0 and c = "[]"]
  note t4 = blank_credential_stops_before_validation
              [where req = otherRequest and decode = decode0 and cfg = cfg0
                 and idp = idpAccept and now = 0 and c = c2]
  note t5 = blank_credential_stops_before_validation
              [where req = "mcpRequest (Some ''Bearer tokA'')" and decode = decode0 and cfg = cfg0
                 and idp = idpReject and now = 0 and c = "[]"]
  have b1: "bearerToken (Some ''Bearer   '') = []"
    using t1[THEN conjunct2, THEN conjunct1, THEN spec, THEN mp, OF w2] by simp
  have b2: "bearerToken (Some ''   '') = []"
    using t1[THEN conjunct2, THEN conjunct1, THEN spec, THEN mp, OF w3] by simp
  have b3: "bearerToken None = []"
    using t1[THEN conjunct2, THEN conjunct1, THEN spec, THEN mp, OF w3] by simp
  have r1: "authMiddleware decode0 cfg0 idpAccept 0 (mcpRequest (Some ''Bearer   '')) [] =
       (Inr (Send 401 (Some (challenge cfg0 False)) ''Unauthorized - No token''), [], [])"
    using t1[THEN conjunct2, THEN conjunct2, THEN conjunct2, THEN conjunct1] b1 p m d
    by (simp only: a) simp
  have r2: "authMiddleware decode0 cfg0 idpAccept 0 (mcpRequest (Some ''   '')) [] =
       (Inr (Send 401 (Some (challenge cfg0 False)) ''Unauthorized - No token''), [], [])"
    using t2[THEN conjunct2, THEN conjunct2, THEN conjunct2, THEN conjunct1] b2 p m d
    by (simp only: a) simp
  have r3: "authMiddleware decode0 cfg0 idpAccept 0 (mcpRequest None) [] =
       (Inr (Send 401 (Some (challenge cfg0 False)) ''Unauthorized - No token''), [], [])"
    using t3[THEN conjunct2, THEN conjunct2, THEN conjunct2, THEN conjunct1] b3 p m d
    by (simp only: a) simp
  have r4: "snd (authMiddleware decode0 cfg0 idpAccept 0 otherRequest c2) = (c2, [])"
    using t4[THEN conjunct2, THEN conjunct2, THEN conjunct1] b3
    by (simp add: otherRequest_def)
  have tk: "bearerToken (Some ''Bearer tokA'') = ''tokA''"
    by (simp add: bearerToken_def trim_def startsWith_def isWhiteSpace_def)
  have "authMiddleware decode0 cfg0 idpReject 0 (mcpRequest (Some ''Bearer tokA'')) [] =
          (Inr (Send 401 (Some (challenge cfg0 True)) ''Unauthorized''), [],
           [Hashed ''tokA'', CacheGet (hashToken ''tokA''), Fetched ''tokA''])"
    using d by (simp add: authMiddleware_def mcpRequest_def startsWith_def tk verify_reject_tokA
                  rejected_def Let_def)
  then have r5: "Fetched ''tokA'' \<in> set (snd (snd (authMiddleware decode0 cfg0 idpReject 0
                                          (mcpRequest (Some ''Bearer tokA'')) [])))"
    by simp
  have "\<not> (\<forall>ch \<in> set (bearerToken (authorization (mcpRequest (Some ''Bearer tokA'')))).
             isWhiteSpace ch)"
    using t5[THEN conjunct2, THEN conjunct2, THEN conjunct2, THEN conjunct2, THEN bspec, OF r5]
    by blast
  then have nb: "\<exists>ch \<in> set ''tokA''. \<not> isWhiteSpace ch"
    by (simp only: a tk) blast
  show ?thesis using sp b1 r1 r2 r3 r4 r5 tk nb by (intro conjI)
qed

section \<open>The exempt requests and the challenge\<close>

text \<open>
  C6, as the code has it. The health probe, every path under \<^verbatim>\<open>/.well-known/\<close> and every
  preflight (\<^verbatim>\<open>OPTIONS\<close>) pass the gate whatever the \<^verbatim>\<open>Authorization\<close> header is, and
  nothing is validated. A request to a path under \<^verbatim>\<open>/mcp\<close> that is not a preflight and
  carries no credential is answered 401 with a \<^verbatim>\<open>WWW-Authenticate\<close> header that names the
  protected-resource metadata document, and is not handed on, when the gateway knows its
  identity provider; it is answered 500 when it does not.
\<close>

theorem gate_protects_mcp:
  "(path req = ''/health'' \<or> startsWith (path req) ''/.well-known/'' \<or> httpMethod req = ''OPTIONS''
      \<longrightarrow> authMiddleware decode cfg idp now req c = (Inr Next, c, []))
   \<and> (startsWith (path req) ''/mcp'' \<and> httpMethod req \<noteq> ''OPTIONS'' \<and> configured (AUTH0_DOMAIN cfg)
        \<and> bearerToken (authorization req) = []
      \<longrightarrow> authMiddleware decode cfg idp now req c =
            (Inr (Send 401
                   (Some (''Bearer realm='' @ dq @ MCP_SERVER_URL cfg @ dq @ '', resource_metadata=''
                          @ dq @ MCP_SERVER_URL cfg @ ''/.well-known/oauth-protected-resource'' @ dq))
                   ''Unauthorized - No token''), c, []))
   \<and> (startsWith (path req) ''/mcp'' \<and> httpMethod req \<noteq> ''OPTIONS'' \<and> \<not> configured (AUTH0_DOMAIN cfg)
      \<longrightarrow> authMiddleware decode cfg idp now req c = (Inr (Send 500 None ''Server misconfigured''), c, []))"
proof (intro conjI impI)
  assume "path req = ''/health'' \<or> startsWith (path req) ''/.well-known/'' \<or> httpMethod req = ''OPTIONS''"
  then show "authMiddleware decode cfg idp now req c = (Inr Next, c, [])"
    by (auto simp: authMiddleware_def)
next
  assume a: "startsWith (path req) ''/mcp'' \<and> httpMethod req \<noteq> ''OPTIONS'' \<and> configured (AUTH0_DOMAIN cfg)
        \<and> bearerToken (authorization req) = []"
  then have "path req \<noteq> ''/health''" "\<not> startsWith (path req) ''/.well-known/''"
    using mcp_not_exempt by blast+
  then show "authMiddleware decode cfg idp now req c =
            (Inr (Send 401
                   (Some (''Bearer realm='' @ dq @ MCP_SERVER_URL cfg @ dq @ '', resource_metadata=''
                          @ dq @ MCP_SERVER_URL cfg @ ''/.well-known/oauth-protected-resource'' @ dq))
                   ''Unauthorized - No token''), c, [])"
    using a by (simp add: authMiddleware_def challenge_def)
next
  assume a: "startsWith (path req) ''/mcp'' \<and> httpMethod req \<noteq> ''OPTIONS'' \<and> \<not> configured (AUTH0_DOMAIN cfg)"
  then have "path req \<noteq> ''/health''" "\<not> startsWith (path req) ''/.well-known/''"
    using mcp_not_exempt by blast+
  then show "authMiddleware decode cfg idp now req c = (Inr (Send 500 None ''Server misconfigured''), c, [])"
    using a by (simp add: authMiddleware_def)
qed

theorem gate_protects_mcp_witness:
  "authMiddleware decode0 cfg0 idpReject 0
       \<lparr>path = ''/health'', httpMethod = ''GET'', authorization = None\<rparr> [] = (Inr Next, [], [])
   \<and> authMiddleware decode0 cfg0 idpReject 0
       \<lparr>path = ''/.well-known/oauth-protected-resource'', httpMethod = ''GET'', authorization = None\<rparr> []
       = (Inr Next, [], [])
   \<and> authMiddleware decode0 cfg0 idpReject 0 (mcpRequest None) [] =
       (Inr (Send 401
              (Some (''Bearer realm='' @ dq @ ''https://gw.example'' @ dq @ '', resource_metadata='' @ dq
                     @ ''https://gw.example/.well-known/oauth-protected-resource'' @ dq))
              ''Unauthorized - No token''), [], [])
   \<and> authMiddleware decode0 (cfg0\<lparr>AUTH0_DOMAIN := None\<rparr>) idpReject 0 (mcpRequest None) [] =
       (Inr (Send 500 None ''Server misconfigured''), [], [])"
  using gate_protects_mcp[of "\<lparr>path = ''/health'', httpMethod = ''GET'', authorization = None\<rparr>"
          decode0 cfg0 idpReject 0 "[]"]
        gate_protects_mcp[of "\<lparr>path = ''/.well-known/oauth-protected-resource'', httpMethod = ''GET'',
          authorization = None\<rparr>" decode0 cfg0 idpReject 0 "[]"]
        gate_protects_mcp[of "mcpRequest None" decode0 cfg0 idpReject 0 "[]"]
        gate_protects_mcp[of "mcpRequest None" decode0 "cfg0\<lparr>AUTH0_DOMAIN := None\<rparr>" idpReject 0 "[]"]
  by (simp add: startsWith_def mcpRequest_def cfg0_def configured_def bearerToken_def trim_def)

text \<open>
  C6 as stated fails: the gate asks for a credential under \<^verbatim>\<open>/mcp\<close> only (line 243). A
  request to \<^verbatim>\<open>/other\<close>, which is not exempt and carries no credential, is handed on.
\<close>

theorem gate_forwards_other_paths:
  "path otherRequest \<noteq> ''/health'' \<and> \<not> startsWith (path otherRequest) ''/.well-known/''
   \<and> httpMethod otherRequest \<noteq> ''OPTIONS'' \<and> authorization otherRequest = None
   \<and> authMiddleware decode0 cfg0 idpReject 0 otherRequest [] = (Inr Next, [], [])"
  by (simp add: authMiddleware_def otherRequest_def startsWith_def)

section \<open>The credential handed to the validator\<close>

lemma verify_trace_hd:
  "configured (AUTH0_DOMAIN cfg) \<Longrightarrow>
     \<exists>rest. snd (snd (verifyOAuthToken decode cfg idp now token c)) = Hashed token # rest"
  by (auto simp: verifyOAuthToken_def Let_def
           split: prod.splits sum.splits option.splits fetch_result.splits)

lemma verify_miss_trace:
  assumes "configured (AUTH0_DOMAIN cfg)" "getTokenExpiry decode token = None"
    and "map_of c (hashToken token) = None"
  shows "snd (snd (verifyOAuthToken decode cfg idp now token c))
           = [Hashed token, CacheGet (hashToken token), Fetched token]"
  using assms
  by (auto simp: verifyOAuthToken_def Let_def expired_def cacheLookup_def
           split: prod.splits sum.splits option.splits fetch_result.splits)

text \<open>
  C10. On a request to a path under \<^verbatim>\<open>/mcp\<close> (not a preflight) of a configured gateway with
  \<^verbatim>\<open>Authorization\<close> header \<open>H\<close>, when \<open>H\<close> without the first occurrence of \<^verbatim>\<open>Bearer\<close> and a
  space, trimmed, is not empty: the gate's answer is the validator's verdict on exactly that
  string, and the first thing the request does is hash it. Removing the first occurrence: \<open>pre @ suf\<close> when
  \<open>H\<close> is \<open>pre\<close>, the pattern, \<open>suf\<close> with no earlier occurrence, and \<open>H\<close> itself when the
  pattern does not occur. So a header of another scheme that is already trimmed is the
  token as a whole: when it has no expiry claim and no cache entry, the identity provider
  is called with it.

  What the two string operations are, in terms of lists alone. Trimming: the string is
  white space, the trimmed string, white space; the trimmed string begins and ends with a
  character that is not white space; and it is the only string of which both hold, so no
  white space is left at either end and nothing else is removed. Removing the first
  occurrence: the pattern occurs exactly when the header is some \<open>pre\<close>, the pattern, some
  \<open>suf\<close>; then the decomposition with the shortest \<open>pre\<close> exists and the result is its
  \<open>pre @ suf\<close>.
\<close>

theorem gate_hands_over_credential:
  assumes "startsWith (path req) ''/mcp''"
    and "httpMethod req \<noteq> ''OPTIONS''"
    and "configured (AUTH0_DOMAIN cfg)"
    and "authorization req = Some H"
    and "trim (replaceFirst ''Bearer '' [] H) \<noteq> []"
  shows "authMiddleware decode cfg idp now req c =
           (case verifyOAuthToken decode cfg idp now (trim (replaceFirst ''Bearer '' [] H)) c of
              (Inl e, c', ev) \<Rightarrow> (Inl e, c', ev)
            | (Inr r, c', ev) \<Rightarrow>
                (if rejected r then Inr (Send 401 (Some (challenge cfg True)) ''Unauthorized'')
                 else Inr Next, c', ev))
       \<and> (\<exists>rest. snd (snd (authMiddleware decode cfg idp now req c))
                   = Hashed (trim (replaceFirst ''Bearer '' [] H)) # rest)
       \<and> (\<forall>pre suf. H = pre @ ''Bearer '' @ suf \<and> \<not> occurs ''Bearer '' (pre @ ''Bearer'')
             \<longrightarrow> replaceFirst ''Bearer '' [] H = pre @ suf)
       \<and> (\<not> occurs ''Bearer '' H \<longrightarrow> replaceFirst ''Bearer '' [] H = H)
       \<and> (\<not> occurs ''Bearer '' H \<and> trim H = H \<and> getTokenExpiry decode H = None
            \<and> map_of c (hashToken H) = None
           \<longrightarrow> snd (snd (authMiddleware decode cfg idp now req c))
                 = [Hashed H, CacheGet (hashToken H), Fetched H])
       \<and> (\<exists>before after.
             replaceFirst ''Bearer '' [] H = before @ trim (replaceFirst ''Bearer '' [] H) @ after
           \<and> (\<forall>ch \<in> set before. isWhiteSpace ch) \<and> (\<forall>ch \<in> set after. isWhiteSpace ch))
       \<and> \<not> isWhiteSpace (hd (trim (replaceFirst ''Bearer '' [] H)))
       \<and> \<not> isWhiteSpace (last (trim (replaceFirst ''Bearer '' [] H)))
       \<and> (\<forall>before t after.
             replaceFirst ''Bearer '' [] H = before @ t @ after
           \<and> (\<forall>ch \<in> set before. isWhiteSpace ch) \<and> (\<forall>ch \<in> set after. isWhiteSpace ch)
           \<and> (t \<noteq> [] \<longrightarrow> \<not> isWhiteSpace (hd t) \<and> \<not> isWhiteSpace (last t))
           \<longrightarrow> t = trim (replaceFirst ''Bearer '' [] H))
       \<and> (\<forall>s. occurs ''Bearer '' s \<longleftrightarrow> (\<exists>pre suf. s = pre @ ''Bearer '' @ suf))
       \<and> (occurs ''Bearer '' H
           \<longrightarrow> (\<exists>pre suf. H = pre @ ''Bearer '' @ suf
                  \<and> (\<forall>p q. H = p @ ''Bearer '' @ q \<longrightarrow> length pre \<le> length p)
                  \<and> replaceFirst ''Bearer '' [] H = pre @ suf))
       \<and> (\<forall>pre suf. H = pre @ ''Bearer '' @ suf
                  \<and> (\<forall>p q. H = p @ ''Bearer '' @ q \<longrightarrow> length pre \<le> length p)
             \<longrightarrow> replaceFirst ''Bearer '' [] H = pre @ suf)"
proof -
  let ?t = "trim (replaceFirst ''Bearer '' [] H)"
  have ne: "path req \<noteq> ''/health''" "\<not> startsWith (path req) ''/.well-known/''"
    using mcp_not_exempt[OF assms(1)] by simp_all
  have tok: "bearerToken (authorization req) = ?t"
    using assms(4) by (simp add: bearerToken_def)
  have run: "authMiddleware decode cfg idp now req c =
           (case verifyOAuthToken decode cfg idp now ?t c of
              (Inl e, c', ev) \<Rightarrow> (Inl e, c', ev)
            | (Inr r, c', ev) \<Rightarrow>
                (if rejected r then Inr (Send 401 (Some (challenge cfg True)) ''Unauthorized'')
                 else Inr Next, c', ev))"
    using assms(1,2,3,5) ne tok
    by (simp add: authMiddleware_def Let_def split: prod.splits sum.splits)
  have ev: "snd (snd (authMiddleware decode cfg idp now req c))
              = snd (snd (verifyOAuthToken decode cfg idp now ?t c))"
    by (simp add: run split: prod.splits sum.splits)
  have first: "\<forall>pre suf. H = pre @ ''Bearer '' @ suf \<and> \<not> occurs ''Bearer '' (pre @ ''Bearer'')
             \<longrightarrow> replaceFirst ''Bearer '' [] H = pre @ suf"
  proof (intro allI impI)
    fix pre suf
    assume a: "H = pre @ ''Bearer '' @ suf \<and> \<not> occurs ''Bearer '' (pre @ ''Bearer'')"
    have "\<not> occurs ''Bearer '' (pre @ butlast ''Bearer '')" using a by simp
    then have "replaceFirst ''Bearer '' [] (pre @ ''Bearer '' @ suf) = pre @ [] @ suf"
      by (intro replaceFirst_first) simp_all
    then show "replaceFirst ''Bearer '' [] H = pre @ suf" using a by simp
  qed
  have basic: "snd (snd (authMiddleware decode cfg idp now req c))
                 = [Hashed H, CacheGet (hashToken H), Fetched H]"
    if "\<not> occurs ''Bearer '' H \<and> trim H = H \<and> getTokenExpiry decode H = None
            \<and> map_of c (hashToken H) = None"
  proof -
    have "?t = H" using that by (simp add: replaceFirst_absent)
    then show ?thesis using that assms(3) by (simp add: ev verify_miss_trace)
  qed
  have hdev: "\<exists>rest. snd (snd (authMiddleware decode cfg idp now req c)) = Hashed ?t # rest"
    using verify_trace_hd[OF assms(3), of decode idp now ?t c] by (simp only: ev)
  have absent: "\<not> occurs ''Bearer '' H \<longrightarrow> replaceFirst ''Bearer '' [] H = H"
    using replaceFirst_absent[of "''Bearer ''" H "[]"] by blast
  from basic have basic':
    "\<not> occurs ''Bearer '' H \<and> trim H = H \<and> getTokenExpiry decode H = None
            \<and> map_of c (hashToken H) = None
           \<longrightarrow> snd (snd (authMiddleware decode cfg idp now req c))
                 = [Hashed H, CacheGet (hashToken H), Fetched H]"
    by blast
  have around: "\<exists>before after.
             replaceFirst ''Bearer '' [] H = before @ ?t @ after
           \<and> (\<forall>ch \<in> set before. isWhiteSpace ch) \<and> (\<forall>ch \<in> set after. isWhiteSpace ch)"
    by (rule trim_surround)
  have begins: "\<not> isWhiteSpace (hd ?t)" and ends: "\<not> isWhiteSpace (last ?t)"
    using trim_ends[OF assms(5)] by blast+
  have only: "\<forall>before t after.
             replaceFirst ''Bearer '' [] H = before @ t @ after
           \<and> (\<forall>ch \<in> set before. isWhiteSpace ch) \<and> (\<forall>ch \<in> set after. isWhiteSpace ch)
           \<and> (t \<noteq> [] \<longrightarrow> \<not> isWhiteSpace (hd t) \<and> \<not> isWhiteSpace (last t))
           \<longrightarrow> t = ?t"
    using trim_unique by blast
  have sub: "\<forall>s. occurs ''Bearer '' s \<longleftrightarrow> (\<exists>pre suf. s = pre @ ''Bearer '' @ suf)"
    using occurs_iff by blast
  have pat: "''Bearer '' \<noteq> []" by simp
  have leftmost: "\<forall>pre suf. H = pre @ ''Bearer '' @ suf
                  \<and> (\<forall>p q. H = p @ ''Bearer '' @ q \<longrightarrow> length pre \<le> length p)
             \<longrightarrow> replaceFirst ''Bearer '' [] H = pre @ suf"
  proof (intro allI impI)
    fix pre suf
    assume a: "H = pre @ ''Bearer '' @ suf
                  \<and> (\<forall>p q. H = p @ ''Bearer '' @ q \<longrightarrow> length pre \<le> length p)"
    then have "\<forall>p q. pre @ ''Bearer '' @ suf = p @ ''Bearer '' @ q \<longrightarrow> length pre \<le> length p"
      by metis
    then have "\<not> occurs ''Bearer '' (pre @ butlast ''Bearer '')"
      by (rule leftmost_is_first[OF pat])
    then have "replaceFirst ''Bearer '' [] (pre @ ''Bearer '' @ suf) = pre @ [] @ suf"
      by (rule replaceFirst_first[OF pat])
    then show "replaceFirst ''Bearer '' [] H = pre @ suf" using a by simp
  qed
  have exists: "occurs ''Bearer '' H
           \<longrightarrow> (\<exists>pre suf. H = pre @ ''Bearer '' @ suf
                  \<and> (\<forall>p q. H = p @ ''Bearer '' @ q \<longrightarrow> length pre \<le> length p)
                  \<and> replaceFirst ''Bearer '' [] H = pre @ suf)"
  proof
    assume "occurs ''Bearer '' H"
    then obtain pre suf where h: "H = pre @ ''Bearer '' @ suf"
      and n: "\<not> occurs ''Bearer '' (pre @ butlast ''Bearer '')"
      using first_occurrence_exists[OF pat] by blast
    have l: "\<forall>p q. H = p @ ''Bearer '' @ q \<longrightarrow> length pre \<le> length p"
    proof (intro allI impI)
      fix p q
      assume "H = p @ ''Bearer '' @ q"
      then have "pre @ ''Bearer '' @ suf = p @ ''Bearer '' @ q" using h by simp
      then show "length pre \<le> length p" by (rule first_is_leftmost[OF pat n])
    qed
    have "replaceFirst ''Bearer '' [] (pre @ ''Bearer '' @ suf) = pre @ [] @ suf"
      using n by (rule replaceFirst_first[OF pat])
    then have "replaceFirst ''Bearer '' [] H = pre @ suf" using h by simp
    then show "\<exists>pre suf. H = pre @ ''Bearer '' @ suf
                  \<and> (\<forall>p q. H = p @ ''Bearer '' @ q \<longrightarrow> length pre \<le> length p)
                  \<and> replaceFirst ''Bearer '' [] H = pre @ suf"
      using h l by blast
  qed
  from run hdev first absent basic' around begins ends only sub exists leftmost
  show ?thesis by (intro conjI)
qed

theorem gate_hands_over_credential_witness:
  "startsWith (path (mcpRequest (Some ''Basic abc''))) ''/mcp''
   \<and> httpMethod (mcpRequest (Some ''Basic abc'')) \<noteq> ''OPTIONS''
   \<and> configured (AUTH0_DOMAIN cfg0)
   \<and> trim (replaceFirst ''Bearer '' [] ''Basic abc'') = ''Basic abc''
   \<and> \<not> occurs ''Bearer '' ''Basic abc''
   \<and> authMiddleware decode0 cfg0 idpReject 0 (mcpRequest (Some ''Basic abc'')) [] =
       (Inr (Send 401 (Some (challenge cfg0 True)) ''Unauthorized''), [],
        [Hashed ''Basic abc'', CacheGet (hashToken ''Basic abc''), Fetched ''Basic abc''])
   \<and> trim (replaceFirst ''Bearer '' [] ''Bearer tokA '') = ''tokA''
   \<and> (\<exists>rest. snd (snd (authMiddleware decode0 cfg0 idpReject 0 (mcpRequest (Some ''Bearer tokA '')) []))
               = Hashed ''tokA'' # rest)
   \<and> replaceFirst ''Bearer '' [] ''  Bearer  Bearer tokB  '' = ''   Bearer tokB  ''
   \<and> isWhiteSpace CHR '' '' \<and> \<not> isWhiteSpace CHR ''B'' \<and> \<not> isWhiteSpace CHR ''t''
   \<and> trim (replaceFirst ''Bearer '' [] ''  Bearer  Bearer tokB  '') = ''Bearer tokB''
   \<and> (\<exists>rest. snd (snd (authMiddleware decode0 cfg0 idpReject 0
                          (mcpRequest (Some ''  Bearer  Bearer tokB  '')) []))
               = Hashed ''Bearer tokB'' # rest)"
proof -
  have p: "startsWith (path (mcpRequest h)) ''/mcp''" for h
    by (simp add: mcpRequest_def startsWith_def)
  have m: "httpMethod (mcpRequest h) \<noteq> ''OPTIONS''" for h
    by (simp add: mcpRequest_def)
  have d: "configured (AUTH0_DOMAIN cfg0)" by (simp add: cfg0_def configured_def)
  have a: "authorization (mcpRequest (Some h)) = Some h" for h
    by (simp add: mcpRequest_def)
  have t1: "trim (replaceFirst ''Bearer '' [] ''Basic abc'') = ''Basic abc''"
    by (simp add: trim_def startsWith_def isWhiteSpace_def)
  have t2: "trim (replaceFirst ''Bearer '' [] ''Bearer tokA '') = ''tokA''"
    by (simp add: trim_def startsWith_def isWhiteSpace_def)
  have o: "\<not> occurs ''Bearer '' ''Basic abc''" by (simp add: startsWith_def)
  have n1: "trim (replaceFirst ''Bearer '' [] ''Basic abc'') \<noteq> []" by (simp only: t1) simp
  have n2: "trim (replaceFirst ''Bearer '' [] ''Bearer tokA '') \<noteq> []" by (simp only: t2) simp
  have v: "verifyOAuthToken decode0 cfg0 idpReject 0 ''Basic abc'' [] =
             (Inr None, [], [Hashed ''Basic abc'', CacheGet (hashToken ''Basic abc''), Fetched ''Basic abc''])"
    by (simp add: verifyOAuthToken_def cfg0_def configured_def getTokenExpiry_def expired_def
          cacheLookup_def idpReject_def ok_def Let_def)
  note w1 = gate_hands_over_credential[OF p m d a n1, where decode = decode0 and idp = idpReject
              and now = 0 and c = "[]"]
  note w2 = gate_hands_over_credential[OF p m d a n2, where decode = decode0 and idp = idpReject
              and now = 0 and c = "[]"]
  have r1: "authMiddleware decode0 cfg0 idpReject 0 (mcpRequest (Some ''Basic abc'')) [] =
       (Inr (Send 401 (Some (challenge cfg0 True)) ''Unauthorized''), [],
        [Hashed ''Basic abc'', CacheGet (hashToken ''Basic abc''), Fetched ''Basic abc''])"
    using w1[THEN conjunct1] by (simp only: t1 v) (simp add: rejected_def)
  have r2: "\<exists>rest. snd (snd (authMiddleware decode0 cfg0 idpReject 0 (mcpRequest (Some ''Bearer tokA '')) []))
               = Hashed ''tokA'' # rest"
    using w2[THEN conjunct2, THEN conjunct1] by (simp only: t2)
  have sp: "isWhiteSpace CHR '' ''" by (simp add: isWhiteSpace_def)
  have nB: "\<not> isWhiteSpace CHR ''B''" by (simp add: isWhiteSpace_def)
  have nt: "\<not> isWhiteSpace CHR ''t''" by (simp add: isWhiteSpace_def)
  have n3: "trim (replaceFirst ''Bearer '' [] ''  Bearer  Bearer tokB  '') \<noteq> []"
    by (simp add: trim_def startsWith_def isWhiteSpace_def)
  note w3 = gate_hands_over_credential[OF p m d a n3, where decode = decode0 and idp = idpReject
              and now = 0 and c = "[]"]
  have dec: "''  Bearer  Bearer tokB  '' = ''  '' @ ''Bearer '' @ '' Bearer tokB  ''"
    by (simp only: append_Cons append_Nil)
  have pat: "''Bearer '' \<noteq> []" by simp
  have no: "\<not> occurs ''Bearer '' (''  '' @ butlast ''Bearer '')"
    by (simp add: startsWith_def)
  have least: "\<forall>p q. ''  Bearer  Bearer tokB  '' = p @ ''Bearer '' @ q \<longrightarrow> length ''  '' \<le> length p"
  proof (intro allI impI)
    fix p q
    assume "''  Bearer  Bearer tokB  '' = p @ ''Bearer '' @ q"
    then have "''  '' @ ''Bearer '' @ '' Bearer tokB  '' = p @ ''Bearer '' @ q"
      by (simp only: append_Cons append_Nil)
    then show "length ''  '' \<le> length p" by (rule first_is_leftmost[OF pat no])
  qed
  have "replaceFirst ''Bearer '' [] ''  Bearer  Bearer tokB  '' = ''  '' @ '' Bearer tokB  ''"
    by (rule w3[THEN conjunct2, THEN conjunct2, THEN conjunct2, THEN conjunct2, THEN conjunct2,
                THEN conjunct2, THEN conjunct2, THEN conjunct2, THEN conjunct2, THEN conjunct2,
                THEN conjunct2, THEN spec, THEN spec, THEN mp, OF conjI[OF dec least]])
  then have rf: "replaceFirst ''Bearer '' [] ''  Bearer  Bearer tokB  '' = ''   Bearer tokB  ''"
    by (simp only: append_Cons append_Nil)
  have dec3: "replaceFirst ''Bearer '' [] ''  Bearer  Bearer tokB  ''
                = ''   '' @ ''Bearer tokB'' @ ''  ''"
    by (simp only: rf append_Cons append_Nil)
  have ws3: "\<forall>ch \<in> set ''   ''. isWhiteSpace ch" using sp by simp
  have ws2: "\<forall>ch \<in> set ''  ''. isWhiteSpace ch" using sp by simp
  have ends3: "''Bearer tokB'' \<noteq> [] \<longrightarrow> \<not> isWhiteSpace (hd ''Bearer tokB'')
                     \<and> \<not> isWhiteSpace (last ''Bearer tokB'')"
    using nB by simp
  have "''Bearer tokB'' = trim (replaceFirst ''Bearer '' [] ''  Bearer  Bearer tokB  '')"
    by (rule w3[THEN conjunct2, THEN conjunct2, THEN conjunct2, THEN conjunct2, THEN conjunct2,
                THEN conjunct2, THEN conjunct2, THEN conjunct2, THEN conjunct1,
                THEN spec, THEN spec, THEN spec, THEN mp,
                OF conjI[OF dec3 conjI[OF ws3 conjI[OF ws2 ends3]]]])
  then have t3: "trim (replaceFirst ''Bearer '' [] ''  Bearer  Bearer tokB  '') = ''Bearer tokB''"
    by (rule sym)
  have r3: "\<exists>rest. snd (snd (authMiddleware decode0 cfg0 idpReject 0
                          (mcpRequest (Some ''  Bearer  Bearer tokB  '')) []))
               = Hashed ''Bearer tokB'' # rest"
    using w3[THEN conjunct2, THEN conjunct1] by (simp only: t3)
  show ?thesis using p m d t1 t2 o r1 r2 rf sp nB nt t3 r3 by (intro conjI)
qed

section \<open>Terminating a session\<close>

text \<open>
  C3, as the code has it. A \<^verbatim>\<open>DELETE\<close> that names no registered session (the header absent
  or empty, the id never registered, or its entry removed) is answered 400
  \<^verbatim>\<open>Invalid or missing session ID\<close> and leaves the registry as it is. A \<^verbatim>\<open>DELETE\<close> for a
  registered session whose transport closes removes the entry, so a second one with the same
  id gets that answer. Only the removal is idempotent: the close handler run twice is the
  close handler run once, and it leaves the registry as it is when the entry is gone.
\<close>

theorem terminate_absent_session:
  "(knownSession sid reg = None \<longrightarrow>
       appDelete sid r reg = (Text 400 ''Invalid or missing session ID'', reg)
     \<and> isErrorReply (fst (appDelete sid r reg)))
   \<and> (\<forall>v t. sid = Some v \<and> v \<noteq> [] \<and> reg v = Some t \<and> sessionId t = Some v
              \<and> closed r \<and> initialized r = None
        \<longrightarrow> snd (appDelete sid r reg) = reg(v := None)
          \<and> knownSession sid (snd (appDelete sid r reg)) = None
          \<and> appDelete sid r' (snd (appDelete sid r reg))
              = (Text 400 ''Invalid or missing session ID'', reg(v := None)))
   \<and> onclose t (onclose t reg) = onclose t reg
   \<and> (\<forall>v. sessionId t = Some v \<and> reg v = None \<longrightarrow> onclose t reg = reg)"
  by (auto simp: appDelete_def knownSession_def callbacks_def onclose_def isErrorReply_def
           split: option.splits)

theorem terminate_absent_session_witness:
  "knownSession (Some ''s1'') Map.empty = None
   \<and> appDelete (Some ''s1'') closeRun Map.empty = (Text 400 ''Invalid or missing session ID'', Map.empty)
   \<and> reg1 ''s1'' = Some \<lparr>sessionId = Some ''s1''\<rparr> \<and> closed closeRun \<and> initialized closeRun = None
   \<and> snd (appDelete (Some ''s1'') closeRun reg1) = reg1(''s1'' := None)
   \<and> appDelete (Some ''s1'') closeRun (snd (appDelete (Some ''s1'') closeRun reg1))
        = (Text 400 ''Invalid or missing session ID'', reg1(''s1'' := None))"
  using terminate_absent_session[of "Some ''s1''" Map.empty closeRun closeRun "\<lparr>sessionId = Some ''s1''\<rparr>"]
        terminate_absent_session[of "Some ''s1''" reg1 closeRun closeRun "\<lparr>sessionId = Some ''s1''\<rparr>"]
  by (simp add: knownSession_def reg1_def closeRun_def)

text \<open>
  C3 as stated fails: after a \<^verbatim>\<open>DELETE\<close> that the transport answered and that removed the
  entry of \<^verbatim>\<open>s1\<close>, a second \<^verbatim>\<open>DELETE\<close> for \<^verbatim>\<open>s1\<close> is answered 400.
\<close>

theorem second_terminate_is_an_error:
  "fst (appDelete (Some ''s1'') closeRun reg1) = ByTransport
   \<and> snd (appDelete (Some ''s1'') closeRun reg1) ''s1'' = None
   \<and> fst (appDelete (Some ''s1'') closeRun (snd (appDelete (Some ''s1'') closeRun reg1)))
        = Text 400 ''Invalid or missing session ID''
   \<and> isErrorReply (fst (appDelete (Some ''s1'') closeRun (snd (appDelete (Some ''s1'') closeRun reg1))))"
  by (simp add: appDelete_def knownSession_def reg1_def closeRun_def callbacks_def onclose_def
        isErrorReply_def)

section \<open>Creating a session\<close>

text \<open>
  C4, as the code has it. A \<^verbatim>\<open>POST\<close> whose session id header is set, not empty and names no
  registered session is answered 400 with the JSON-RPC error -32000 and id \<^verbatim>\<open>null\<close>, and
  changes nothing, whatever its body is. A new transport is constructed only when the header
  is absent or empty and the body is an initialize message. When the header names a
  registered session the request goes to that session's transport, an initialize message
  included.
\<close>

theorem create_with_session_header:
  "(\<forall>v. sid = Some v \<and> v \<noteq> [] \<and> reg v = None \<longrightarrow>
       appPost sid isInit r reg =
         (False, JsonRpcError 400 (- 32000) ''Bad Request: No valid session ID provided'', reg))
   \<and> (fst (appPost sid isInit r reg) \<longrightarrow> (sid = None \<or> sid = Some []) \<and> isInit)
   \<and> (\<forall>v t. sid = Some v \<and> v \<noteq> [] \<and> reg v = Some t \<longrightarrow>
       appPost sid isInit r reg =
         (False,
          if threw r \<and> \<not> headersSent r then JsonRpcError 500 (- 32603) ''Internal server error''
          else ByTransport,
          callbacks t r reg))"
  by (auto simp: appPost_def knownSession_def present_def split: option.splits if_splits)

theorem create_with_session_header_witness:
  "appPost (Some ''s9'') True initRun reg1 =
     (False, JsonRpcError 400 (- 32000) ''Bad Request: No valid session ID provided'', reg1)
   \<and> fst (appPost None True initRun reg1)
   \<and> snd (snd (appPost None True initRun reg1)) ''s2'' = Some \<lparr>sessionId = Some ''s2''\<rparr>
   \<and> appPost (Some ''s1'') False plainRun reg1 = (False, ByTransport, reg1)"
  using create_with_session_header[of "Some ''s9''" reg1 True initRun]
        create_with_session_header[of None reg1 True initRun]
        create_with_session_header[of "Some ''s1''" reg1 False plainRun]
  by (simp add: reg1_def appPost_def knownSession_def present_def initRun_def plainRun_def callbacks_def)

text \<open>
  C4 as stated fails: an initialize message that carries the id of the registered session
  \<^verbatim>\<open>s1\<close> is not answered by the gateway's 400; it is handed to the transport of \<^verbatim>\<open>s1\<close>. And
  an initialize message whose header is present but empty creates a session.
\<close>

theorem create_with_known_session_is_forwarded:
  "appPost (Some ''s1'') True plainRun reg1 = (False, ByTransport, reg1)
   \<and> fst (snd (appPost (Some ''s1'') True plainRun reg1))
        \<noteq> JsonRpcError 400 (- 32000) ''Bad Request: No valid session ID provided''
   \<and> fst (appPost (Some []) True initRun reg1)
   \<and> snd (snd (appPost (Some []) True initRun reg1)) ''s2'' = Some \<lparr>sessionId = Some ''s2''\<rparr>"
  by (simp add: reg1_def appPost_def knownSession_def present_def initRun_def plainRun_def callbacks_def)

section \<open>The shape of a digest\<close>













section \<open>The keys of the cache\<close>







end
